theory Spec2Isabelle
  imports Main
begin

section \<open>Documents\<close>

text \<open>
  The merge engine of document-factory works on a Google Docs document through the
  DocumentApp service. The part of a document that the engine reads and changes is
  modelled here as a tree: a document part (header, body, footer, footnote contents) is
  a sequence of blocks; a block is a paragraph, a list item or a table; a table is a
  sequence of rows, a row a sequence of cells, and a cell holds paragraphs and list
  items. A paragraph or list item together with its Text child is one
  \<open>container\<close>; its \<open>cid\<close> stands for the identity of the JavaScript
  object, which is what a RangeElement keeps a reference to. Paragraphs with other
  inline children, and tables inside cells, are not modelled; a character of a text
  is a \<open>char\<close>.

  The operations of the service are functions on this tree. An operation fails, with
  an exception that ends the call of \<open>merge\<close>, only where it has no result: an
  offset outside the text, an index outside the children, \<open>getChildIndex\<close> for an
  element that is not a child. What the service refuses for reasons of its own (the
  removal of the last paragraph of a section) is not modelled.
\<close>

datatype error = TypeError | RangeError | NotAChild | Detached

datatype glyphType = BULLET | HOLLOW_BULLET | SQUARE_BULLET | NUMBER | LATIN_UPPER | LATIN_LOWER

datatype elementType = PARAGRAPH | LIST_ITEM glyphType

record container =
  cid :: nat
  kind :: elementType
  getText :: string

type_synonym cell = "container list"

type_synonym row = "cell list"

datatype block = Leaf container | Table "row list"

type_synonym part = "block list"

record document =
  header :: "part option"
  body :: "part option"
  footer :: "part option"
  footnotes :: "part list"

text \<open>\<open>getDocumentParts\<close>: header, body and footer when present, then the footnotes.\<close>

definition getDocumentParts :: "document \<Rightarrow> part list" where
  "getDocumentParts d =
     (case header d of None \<Rightarrow> [] | Some h \<Rightarrow> [h]) @
     (case body d of None \<Rightarrow> [] | Some b \<Rightarrow> [b]) @
     (case footer d of None \<Rightarrow> [] | Some f \<Rightarrow> [f]) @
     footnotes d"

text \<open>The containers of a part, in document order.\<close>

fun blockContainers :: "block \<Rightarrow> container list" where
  "blockContainers (Leaf c) = [c]"
| "blockContainers (Table rows) = concat (concat rows)"

definition containers :: "part \<Rightarrow> container list" where
  "containers p = concat (map blockContainers p)"

definition getContainer :: "part \<Rightarrow> nat \<Rightarrow> container option" where
  "getContainer p c = find (\<lambda>x. cid x = c) (containers p)"

section \<open>The tag scanner\<close>

subsection \<open>The search pattern\<close>

text \<open>
  \<open>findAllTags\<close> searches for the regular expression
  \<^verbatim>\<open><[^<>]*<[^<>\?]+\??>[^<>]*>\<close>. Every repetition in it is followed by a
  character outside its own class, so a match that starts at a given position is
  unique, and the matcher below reads the pattern left to right without backtracking.
  \<open>matchPattern s\<close> is the length of the match anchored at the head of \<open>s\<close>.
\<close>

definition notAngle :: "char \<Rightarrow> bool" where
  "notAngle c = (c \<noteq> CHR ''<'' \<and> c \<noteq> CHR ''>'')"

definition tagChar :: "char \<Rightarrow> bool" where
  "tagChar c = (c \<noteq> CHR ''<'' \<and> c \<noteq> CHR ''>'' \<and> c \<noteq> CHR ''?'')"

fun expect :: "char \<Rightarrow> string \<Rightarrow> string option" where
  "expect c [] = None"
| "expect c (x # xs) = (if x = c then Some xs else None)"

definition optionally :: "char \<Rightarrow> string \<Rightarrow> string" where
  "optionally c s = (case expect c s of None \<Rightarrow> s | Some r \<Rightarrow> r)"

definition matchPattern :: "string \<Rightarrow> nat option" where
  "matchPattern s =
     Option.bind (expect CHR ''<'' s) (\<lambda>r1.
     Option.bind (expect CHR ''<'' (dropWhile notAngle r1)) (\<lambda>r2.
       if takeWhile tagChar r2 = [] then None
       else
         Option.bind (expect CHR ''>'' (optionally CHR ''?'' (dropWhile tagChar r2))) (\<lambda>r3.
         Option.bind (expect CHR ''>'' (dropWhile notAngle r3)) (\<lambda>r4.
           Some (length s - length r4)))))"

text \<open>
  The grammar of a tag construct as the specification words it:
  \<open>"<" prefix "<" tagName ["?"] ">" suffix ">"\<close>.
\<close>

definition tagConstruct :: "string \<Rightarrow> string \<Rightarrow> bool \<Rightarrow> string \<Rightarrow> string" where
  "tagConstruct p t q s = ''<'' @ p @ ''<'' @ t @ (if q then ''?'' else []) @ ''>'' @ s @ ''>''"

subsection \<open>findText and findAllRanges\<close>

text \<open>
  \<open>findIn i s\<close> is the leftmost match in the text whose characters from offset \<open>i\<close>
  on are \<open>s\<close>, as start offset and inclusive end offset.
\<close>

fun findIn :: "nat \<Rightarrow> string \<Rightarrow> (nat \<times> nat) option" where
  "findIn i [] = None"
| "findIn i (c # cs) =
     (case matchPattern (c # cs) of
        Some n \<Rightarrow> Some (i, i + n - 1)
      | None \<Rightarrow> findIn (Suc i) cs)"

text \<open>
  A search result is the position \<open>k\<close> of the Text element among the texts of the part,
  with the two offsets. \<open>findInElements k i ts\<close> searches the element at position \<open>k\<close>
  from offset \<open>i\<close>, then the elements after it; \<open>ts\<close> are the texts from position \<open>k\<close> on.
\<close>

type_synonym found = "nat \<times> nat \<times> nat"

fun findInElements :: "nat \<Rightarrow> nat \<Rightarrow> string list \<Rightarrow> found option" where
  "findInElements k i [] = None"
| "findInElements k i (t # ts) =
     (case findIn i (drop i t) of
        Some (a, b) \<Rightarrow> Some (k, a, b)
      | None \<Rightarrow> findInElements (Suc k) 0 ts)"

text \<open>
  \<open>docPart.findText(pattern)\<close> and \<open>docPart.findText(pattern, from)\<close>: the second
  form resumes after the end of the result \<open>from\<close>.
\<close>

definition findText :: "string list \<Rightarrow> found option \<Rightarrow> found option" where
  "findText ts from =
     (case from of
        None \<Rightarrow> findInElements 0 0 ts
      | Some (k, a, b) \<Rightarrow> findInElements k (Suc b) (drop k ts))"

lemma expect_Some: "expect c s = Some r \<longleftrightarrow> s = c # r"
  by (cases s) auto

lemma matchPattern_bounds:
  assumes "matchPattern s = Some n"
  shows "5 \<le> n \<and> n \<le> length s"
proof -
  from assms obtain r1 r2 r3 r4 where
    1: "s = CHR ''<'' # r1" and 2: "dropWhile notAngle r1 = CHR ''<'' # r2"
    and 3: "takeWhile tagChar r2 \<noteq> []"
    and 4: "optionally CHR ''?'' (dropWhile tagChar r2) = CHR ''>'' # r3"
    and 5: "dropWhile notAngle r3 = CHR ''>'' # r4" and n: "n = length s - length r4"
    by (auto simp: matchPattern_def bind_eq_Some_conv expect_Some split: if_splits)
  have a: "length r3 \<ge> Suc (length r4)"
    using length_dropWhile_le[of notAngle r3] 5 by simp
  have b: "length (dropWhile tagChar r2) \<ge> Suc (length r3)"
    using 4 by (auto simp: optionally_def expect_Some split: option.splits)
  have c: "length r2 = length (takeWhile tagChar r2) + length (dropWhile tagChar r2)"
    by (metis length_append takeWhile_dropWhile_id)
  have d: "length (takeWhile tagChar r2) \<ge> 1"
    using 3 by (cases "takeWhile tagChar r2") auto
  have e: "length r1 \<ge> Suc (length r2)"
    using length_dropWhile_le[of notAngle r1] 2 by simp
  show ?thesis using 1 n a b c d e by simp
qed

lemma findIn_spec:
  "findIn i s = Some (a, b) \<Longrightarrow>
     i \<le> a \<and> a \<le> b \<and> b < i + length s \<and> matchPattern (drop (a - i) s) = Some (Suc b - a)"
proof (induction s arbitrary: i)
  case Nil
  then show ?case by simp
next
  case (Cons c cs)
  show ?case
  proof (cases "matchPattern (c # cs)")
    case None
    with Cons.prems have "findIn (Suc i) cs = Some (a, b)" by simp
    from Cons.IH[OF this] have *: "Suc i \<le> a" "a \<le> b" "b < Suc i + length cs"
        "matchPattern (drop (a - Suc i) cs) = Some (Suc b - a)" by auto
    from *(1) have "a - i = Suc (a - Suc i)" by simp
    then have "drop (a - i) (c # cs) = drop (a - Suc i) cs" by simp
    with * show ?thesis by simp
  next
    case (Some n)
    with Cons.prems have ab: "a = i" "b = i + n - 1" by auto
    from matchPattern_bounds[OF Some] have "5 \<le> n" "n \<le> length (c # cs)" by auto
    with ab Some show ?thesis by auto
  qed
qed

lemma findInElements_spec:
  "findInElements k i ts = Some (k', a, b) \<Longrightarrow>
     k \<le> k' \<and> k' < k + length ts \<and> a \<le> b \<and> b < length (ts ! (k' - k)) \<and>
     (k' = k \<longrightarrow> i \<le> a) \<and> matchPattern (drop a (ts ! (k' - k))) = Some (Suc b - a)"
proof (induction ts arbitrary: k i)
  case Nil
  then show ?case by simp
next
  case (Cons t ts)
  show ?case
  proof (cases "findIn i (drop i t)")
    case None
    with Cons.prems have "findInElements (Suc k) 0 ts = Some (k', a, b)" by simp
    from Cons.IH[OF this] show ?thesis by (auto simp: Suc_diff_le)
  next
    case (Some ab)
    with Cons.prems have f: "findIn i (drop i t) = Some (a, b)" and k: "k' = k"
      by (auto split: prod.splits)
    from findIn_spec[OF f] have "i \<le> a" "a \<le> b" "b < i + length (drop i t)"
       "matchPattern (drop (a - i) (drop i t)) = Some (Suc b - a)" by auto
    then show ?thesis using k by auto
  qed
qed

text \<open>
  The loop of \<open>findAllRanges\<close>: every result is pushed, and the search resumes
  from it until \<open>findText\<close> returns null. It ends because each result lies after
  the one the search resumed from.
\<close>

function findAllRanges_loop :: "string list \<Rightarrow> found option \<Rightarrow> found list \<Rightarrow> found list" where
  "findAllRanges_loop ts rng res =
     (case rng of
        None \<Rightarrow> res
      | Some r \<Rightarrow> findAllRanges_loop ts (findText ts (Some r)) (res @ [r]))"
  by pat_completeness auto
termination
proof (relation "inv_image (less_than <*lex*> less_than)
        (\<lambda>(ts, rng, res). case rng of None \<Rightarrow> (0, 0)
            | Some (k, a, b) \<Rightarrow> (Suc (Suc (length ts) - k), Suc (length (ts ! k)) - b))", goal_cases)
  case 1
  show ?case by (intro wf_inv_image wf_lex_prod wf_less_than)
next
  case (2 ts rng res r)
  obtain k a b where r0: "r = (k, a, b)" by (cases r)
  with 2 have r: "r = (k, a, b)" "rng = Some (k, a, b)" by auto
  show ?case
  proof (cases "findText ts (Some r)")
    case None
    then show ?thesis using r by simp
  next
    case (Some r')
    obtain k' a' b' where r': "r' = (k', a', b')" by (cases r')
    from Some r r' have "findInElements k (Suc b) (drop k ts) = Some (k', a', b')"
      by (simp add: findText_def)
    from findInElements_spec[OF this]
    have *: "k \<le> k'" "k' < k + length (drop k ts)" "b' < length (drop k ts ! (k' - k))"
      "k' = k \<longrightarrow> Suc b \<le> a'" "a' \<le> b'"
      by auto
    then have kk: "k' < length ts" and bb: "b' < length (ts ! k')" by auto
    show ?thesis
    proof (cases "k' = k")
      case True
      with * bb have "b < b'" "b' < length (ts ! k)" by auto
      then show ?thesis using Some r r' True by auto
    next
      case False
      with * kk have "k < k'" by simp
      then show ?thesis using Some r r' kk by auto
    qed
  qed
qed

declare findAllRanges_loop.simps [simp del]

record rangeElement =
  element :: nat
  startOffset :: nat
  endOffsetInclusive :: nat

definition toRange :: "part \<Rightarrow> found \<Rightarrow> rangeElement" where
  "toRange docPart r =
     (case r of (k, a, b) \<Rightarrow>
        \<lparr>element = cid (containers docPart ! k), startOffset = a, endOffsetInclusive = b\<rparr>)"

definition findAllRanges :: "part \<Rightarrow> rangeElement list" where
  "findAllRanges docPart =
     (let ts = map getText (containers docPart)
      in map (toRange docPart) (findAllRanges_loop ts (findText ts None) []))"

subsection \<open>Strings of JavaScript\<close>

text \<open>\<open>s.substring(a, b)\<close>: both indices are clamped to the string and swapped when out of order.\<close>

definition substring :: "string \<Rightarrow> int \<Rightarrow> int \<Rightarrow> string" where
  "substring s a b =
     (let n = int (length s);
          a' = max 0 (min a n);
          b' = max 0 (min b n);
          lo = min a' b';
          hi = max a' b'
      in take (nat (hi - lo)) (drop (nat lo) s))"

definition substringFrom :: "string \<Rightarrow> int \<Rightarrow> string" where
  "substringFrom s a = substring s a (int (length s))"

text \<open>\<open>s.split(sep)\<close> for a separator that matches one character: never an empty array.\<close>

fun splitOn :: "(char \<Rightarrow> bool) \<Rightarrow> string \<Rightarrow> string list" where
  "splitOn P [] = [[]]"
| "splitOn P (c # cs) =
     (if P c then [] # splitOn P cs
      else (case splitOn P cs of [] \<Rightarrow> [[c]] | x # xs \<Rightarrow> (c # x) # xs))"

definition isAngle :: "char \<Rightarrow> bool" where
  "isAngle c = (c = CHR ''<'' \<or> c = CHR ''>'')"

definition isNewline :: "char \<Rightarrow> bool" where
  "isNewline c = (c = CHR 0x0A)"

text \<open>An array read: \<open>undefined\<close> out of range.\<close>

definition at :: "'a list \<Rightarrow> nat \<Rightarrow> 'a option" where
  "at xs i = (if i < length xs then Some (xs ! i) else None)"

subsection \<open>findAllTags\<close>

definition isPartial :: "container \<Rightarrow> rangeElement \<Rightarrow> bool" where
  "isPartial x r = (\<not> (startOffset r = 0 \<and> Suc (endOffsetInclusive r) = length (getText x)))"

definition getStringFromRange :: "part \<Rightarrow> rangeElement \<Rightarrow> error + string" where
  "getStringFromRange docPart r =
     (case getContainer docPart (element r) of
        None \<Rightarrow> Inl Detached
      | Some x \<Rightarrow>
          Inr (if isPartial x r
               then substring (getText x) (int (startOffset r)) (int (endOffsetInclusive r) + 1)
               else getText x))"

text \<open>
  One item of the array that \<open>findAllTags\<close> returns; the fields are the indices 0 to 6
  of the source's array. \<open>docPart\<close> is the position of the part in
  \<open>getDocumentParts\<close>, standing for the reference to the part.
\<close>

record tag =
  matchText :: string
  tagRange :: rangeElement
  text1 :: string
  tagName :: string
  text2 :: string
  opt :: bool
  docPart :: nat

text \<open>
  The body of the loop of \<open>findAllTags\<close>. A segment missing from the split is
  \<open>undefined\<close>; \<open>a[1].substring\<close> then raises a TypeError. A missing
  \<open>a[2]\<close> would raise only later, at \<open>text2.length\<close> in \<open>merge\<close>;
  the model raises at once. Neither happens for a string that matched the pattern
  (lemma \<open>decompose_construct\<close>).
\<close>

definition decompose :: "nat \<Rightarrow> part \<Rightarrow> rangeElement \<Rightarrow> error + tag" where
  "decompose p dp rng =
     (case getStringFromRange dp rng of
        Inl e \<Rightarrow> Inl e
      | Inr m \<Rightarrow>
          (let a = splitOn isAngle (substring m 1 (int (length m) - 1))
           in case (at a 0, at a 1, at a 2) of
                (Some a0, Some a1, Some a2) \<Rightarrow>
                  (let q = (substringFrom a1 (int (length a1) - 1) = ''?'');
                       t = (if q then substring a1 0 (int (length a1) - 1) else a1)
                   in Inr \<lparr>matchText = m, tagRange = rng, text1 = a0, tagName = t,
                            text2 = a2, opt = q, docPart = p\<rparr>)
              | _ \<Rightarrow> Inl TypeError))"

fun traverse :: "('a \<Rightarrow> error + 'b) \<Rightarrow> 'a list \<Rightarrow> error + 'b list" where
  "traverse f [] = Inr []"
| "traverse f (x # xs) =
     (case f x of
        Inl e \<Rightarrow> Inl e
      | Inr y \<Rightarrow> (case traverse f xs of Inl e \<Rightarrow> Inl e | Inr ys \<Rightarrow> Inr (y # ys)))"

definition findAllTags :: "nat \<Rightarrow> part \<Rightarrow> error + tag list" where
  "findAllTags p dp = traverse (decompose p dp) (findAllRanges dp)"

section \<open>The substitution engine\<close>

subsection \<open>Operations of the DocumentApp service\<close>

text \<open>
  The operations that \<open>merge\<close> calls on elements. An offset outside the text, a
  child index outside the part and \<open>getChildIndex\<close> on an element that is not a
  child of the part raise an exception of the service; an exception is a value
  \<open>Inl\<close>, and it ends the call of \<open>merge\<close>.
\<close>

definition andThen :: "error + 'a \<Rightarrow> ('a \<Rightarrow> error + 'b) \<Rightarrow> error + 'b" where
  "andThen r f = (case r of Inl e \<Rightarrow> Inl e | Inr x \<Rightarrow> f x)"

text \<open>\<open>deleteText(startOffset, endOffsetInclusive)\<close> and \<open>insertText(offset, text)\<close>.\<close>

definition deleteText :: "string \<Rightarrow> int \<Rightarrow> int \<Rightarrow> error + string" where
  "deleteText s a b =
     (if 0 \<le> a \<and> a \<le> b \<and> b < int (length s)
      then Inr (take (nat a) s @ drop (nat b + 1) s)
      else Inl RangeError)"

definition insertText :: "string \<Rightarrow> int \<Rightarrow> string \<Rightarrow> error + string" where
  "insertText s off t =
     (if 0 \<le> off \<and> off \<le> int (length s)
      then Inr (take (nat off) s @ t @ drop (nat off) s)
      else Inl RangeError)"

text \<open>Writing the text of the element \<open>c\<close> back into the tree.\<close>

definition upd :: "nat \<Rightarrow> string \<Rightarrow> container \<Rightarrow> container" where
  "upd c s x = (if cid x = c then x\<lparr>getText := s\<rparr> else x)"

fun setTextBlock :: "nat \<Rightarrow> string \<Rightarrow> block \<Rightarrow> block" where
  "setTextBlock c s (Leaf x) = Leaf (upd c s x)"
| "setTextBlock c s (Table rows) = Table (map (map (map (upd c s))) rows)"

definition setText :: "nat \<Rightarrow> string \<Rightarrow> part \<Rightarrow> part" where
  "setText c s p = map (setTextBlock c s) p"

fun firstIndex :: "('a \<Rightarrow> bool) \<Rightarrow> 'a list \<Rightarrow> nat option" where
  "firstIndex P [] = None"
| "firstIndex P (x # xs) = (if P x then Some 0 else map_option Suc (firstIndex P xs))"

text \<open>\<open>part.getChildIndex(parent)\<close>: the index among the children of the part.\<close>

definition getChildIndex :: "part \<Rightarrow> nat \<Rightarrow> nat option" where
  "getChildIndex p c = firstIndex (\<lambda>b. case b of Leaf x \<Rightarrow> cid x = c | Table rows \<Rightarrow> False) p"

text \<open>\<open>part.insertListItem(index, text).setGlyphType(glyph)\<close>; \<open>item\<close> is the new list item.\<close>

definition insertListItem :: "part \<Rightarrow> nat \<Rightarrow> container \<Rightarrow> error + part" where
  "insertListItem p i item =
     (if i \<le> length p then Inr (take i p @ [Leaf item] @ drop i p) else Inl RangeError)"

text \<open>An identity for a new element: one that no element of the document has.\<close>

definition freshId :: "part list \<Rightarrow> nat" where
  "freshId ps = Suc (fold max (map cid (concat (map containers ps))) 0)"

text \<open>
  The cell that holds the element \<open>c\<close>, as (index of the table in the part, index of
  the row, index of the cell); \<open>None\<close> when the parent of \<open>c\<close> is the part itself.
\<close>

definition hasId :: "nat \<Rightarrow> container list \<Rightarrow> bool" where
  "hasId c xs = list_ex (\<lambda>x. cid x = c) xs"

definition parentCell :: "part \<Rightarrow> nat \<Rightarrow> (nat \<times> nat \<times> nat) option" where
  "parentCell p c =
     (case firstIndex (\<lambda>b. hasId c (blockContainers b)) p of
        None \<Rightarrow> None
      | Some i \<Rightarrow>
          (case p ! i of
             Leaf x \<Rightarrow> None
           | Table rows \<Rightarrow>
               (case firstIndex (\<lambda>row. hasId c (concat row)) rows of
                  None \<Rightarrow> None
                | Some r \<Rightarrow>
                    (case firstIndex (hasId c) (rows ! r) of
                       None \<Rightarrow> None
                     | Some k \<Rightarrow> Some (i, r, k)))))"

text \<open>\<open>pg.removeFromParent()\<close>.\<close>

fun removeFromParent :: "nat \<Rightarrow> part \<Rightarrow> part" where
  "removeFromParent c [] = []"
| "removeFromParent c (Leaf x # bs) =
     (if cid x = c then removeFromParent c bs else Leaf x # removeFromParent c bs)"
| "removeFromParent c (Table rows # bs) =
     Table (map (map (filter (\<lambda>x. cid x \<noteq> c))) rows) # removeFromParent c bs"

text \<open>
  \<open>cell.asText().getText()\<close>: the texts of the children of the cell, one per line.
\<close>

fun joinLines :: "string list \<Rightarrow> string" where
  "joinLines [] = []"
| "joinLines [x] = x"
| "joinLines (x # y # ys) = x @ [CHR 0x0A] @ joinLines (y # ys)"

definition cellText :: "cell \<Rightarrow> string" where
  "cellText cell = joinLines (map getText cell)"

text \<open>\<open>table.removeRow(row_index)\<close>.\<close>

definition removeRow :: "nat \<Rightarrow> row list \<Rightarrow> row list" where
  "removeRow r rows = take r rows @ drop (Suc r) rows"

subsection \<open>merge\<close>

text \<open>The value to substitute to a tag; \<open>None\<close> when the tag is skipped.\<close>

definition resolve :: "(string \<rightharpoonup> string) \<Rightarrow> tag \<Rightarrow> string option" where
  "resolve fm t =
     (case fm (tagName t) of
        None \<Rightarrow> (if opt t then Some [] else None)
      | Some v \<Rightarrow> Some v)"

text \<open>The five edits of the first replacement, or the deletion of the whole match.\<close>

definition replaceTag :: "string \<Rightarrow> int \<Rightarrow> int \<Rightarrow> string \<Rightarrow> string \<Rightarrow> string \<Rightarrow> string \<Rightarrow> error + string" where
  "replaceTag s firstOff lastOff t1 t2 tagValue replaceTxt =
     (if length replaceTxt > 0
      then
        (let op_size = 1;
             tag_pos = firstOff + op_size + int (length t1) + 1
         in andThen (deleteText s (lastOff - op_size + 1) lastOff) (\<lambda>s1.
            andThen (deleteText s1 tag_pos (lastOff - op_size - int (length t2))) (\<lambda>s2.
            andThen (insertText s2 tag_pos tagValue) (\<lambda>s3.
            andThen (deleteText s3 (tag_pos - op_size) (tag_pos - 1)) (\<lambda>s4.
            deleteText s4 firstOff (firstOff + op_size - 1))))))
      else deleteText s firstOff lastOff)"

text \<open>The loop that creates the new items with the remaining lines.\<close>

fun insertItems :: "part \<Rightarrow> nat \<Rightarrow> glyphType \<Rightarrow> nat \<Rightarrow> string list \<Rightarrow> error + part" where
  "insertItems p index g fresh [] = Inr p"
| "insertItems p index g fresh (l # ls) =
     andThen (insertListItem p (index + 1) \<lparr>cid = fresh, kind = LIST_ITEM g, getText = l\<rparr>)
       (\<lambda>p'. insertItems p' (index + 1) g (Suc fresh) ls)"

definition newItems :: "part \<Rightarrow> container \<Rightarrow> nat \<Rightarrow> string list \<Rightarrow> error + part" where
  "newItems p parent fresh ls =
     (case getChildIndex p (cid parent) of
        None \<Rightarrow> Inl NotAChild
      | Some index \<Rightarrow>
          (case kind parent of
             LIST_ITEM glyph \<Rightarrow> insertItems p index glyph fresh ls
           | PARAGRAPH \<Rightarrow> Inl TypeError))"

text \<open>The loop over the cells of a row.\<close>

fun allEmpty :: "row \<Rightarrow> bool" where
  "allEmpty [] = True"
| "allEmpty (cell # cells) = (if length (cellText cell) = 0 then allEmpty cells else False)"

text \<open>
  The end of the loop body: an element left empty is removed, and so is the row of
  its cell when every cell of the row is empty.
\<close>

definition cleanup :: "nat \<Rightarrow> part \<Rightarrow> error + part" where
  "cleanup c p =
     (case getContainer p c of
        None \<Rightarrow> Inl Detached
      | Some pg \<Rightarrow>
          if length (getText pg) = 0
          then
            (let cell = parentCell p c;
                 p1 = removeFromParent c p
             in case cell of
                  None \<Rightarrow> Inr p1
                | Some (i, r, k) \<Rightarrow>
                    (case p1 ! i of
                       Leaf x \<Rightarrow> Inr p1
                     | Table rows \<Rightarrow>
                         if allEmpty (rows ! r)
                         then Inr (p1[i := Table (removeRow r rows)])
                         else Inr p1))
          else Inr p)"

text \<open>
  The variables of the loop body: \<open>isFullRep\<close>, \<open>isItem\<close>, \<open>lines\<close>,
  \<open>isNewItemsCase\<close>, \<open>tagValue\<close> once \<open>lines.shift()\<close> has replaced it in the
  case of new items, and \<open>replaceTxt\<close>. \<open>v\<close> is the value found for the tag and
  \<open>el\<close> the element of its range.
\<close>

definition isFullRep :: "container \<Rightarrow> tag \<Rightarrow> bool" where
  "isFullRep el t = (matchText t = getText el \<and> text1 t = [] \<and> text2 t = [])"

definition isItem :: "container \<Rightarrow> bool" where
  "isItem el = (case kind el of LIST_ITEM g \<Rightarrow> True | PARAGRAPH \<Rightarrow> False)"

definition isNewItemsCase :: "container \<Rightarrow> tag \<Rightarrow> string \<Rightarrow> bool" where
  "isNewItemsCase el t v = (isItem el \<and> isFullRep el t \<and> length (splitOn isNewline v) > 0)"

definition shiftedValue :: "container \<Rightarrow> tag \<Rightarrow> string \<Rightarrow> string" where
  "shiftedValue el t v = (if isNewItemsCase el t v then hd (splitOn isNewline v) else v)"

definition remainingLines :: "container \<Rightarrow> tag \<Rightarrow> string \<Rightarrow> string list" where
  "remainingLines el t v =
     (if isNewItemsCase el t v then tl (splitOn isNewline v) else splitOn isNewline v)"

definition replaceTxt :: "tag \<Rightarrow> string \<Rightarrow> string" where
  "replaceTxt t tagValue = (if length tagValue > 0 then text1 t @ tagValue @ text2 t else [])"

text \<open>The text of the element after the first replacement.\<close>

definition editText :: "container \<Rightarrow> tag \<Rightarrow> string \<Rightarrow> error + string" where
  "editText el t v =
     replaceTag (getText el)
       (int (startOffset (tagRange t))) (int (endOffsetInclusive (tagRange t)))
       (text1 t) (text2 t) (shiftedValue el t v) (replaceTxt t (shiftedValue el t v))"

text \<open>
  The body of the second loop of \<open>merge\<close> on the part of the tag, for a tag that
  is not skipped: the edit of the text, the new items, the removal of what is left
  empty.
\<close>

definition replaceInPart :: "part \<Rightarrow> nat \<Rightarrow> tag \<Rightarrow> string \<Rightarrow> error + part" where
  "replaceInPart p fresh t v =
     (case getContainer p (element (tagRange t)) of
        None \<Rightarrow> Inl Detached
      | Some el \<Rightarrow>
          andThen (editText el t v) (\<lambda>s.
          andThen (if isNewItemsCase el t v
                   then newItems (setText (cid el) s p) el fresh (remainingLines el t v)
                   else Inr (setText (cid el) s p))
            (cleanup (cid el))))"

definition processTag :: "(string \<rightharpoonup> string) \<Rightarrow> part list \<Rightarrow> tag \<Rightarrow> error + part list" where
  "processTag fm ps t =
     (case resolve fm t of
        None \<Rightarrow> Inr ps
      | Some tagValue \<Rightarrow>
          (case at ps (docPart t) of
             None \<Rightarrow> Inl Detached
           | Some p \<Rightarrow>
               andThen (replaceInPart p (freshId ps) t tagValue)
                 (\<lambda>p'. Inr (ps[docPart t := p']))))"

text \<open>The first loop of \<open>merge\<close>: the tags of all parts, in the order of the parts.\<close>

fun collectTags :: "nat \<Rightarrow> part list \<Rightarrow> error + tag list" where
  "collectTags n [] = Inr []"
| "collectTags n (p # ps) =
     andThen (findAllTags n p) (\<lambda>arr.
     andThen (collectTags (Suc n) ps) (\<lambda>tags. Inr (arr @ tags)))"

text \<open>The second loop, over the tags in the order in which it visits them.\<close>

fun processTags :: "(string \<rightharpoonup> string) \<Rightarrow> tag list \<Rightarrow> part list \<Rightarrow> error + part list" where
  "processTags fm [] ps = Inr ps"
| "processTags fm (t # ts) ps = andThen (processTag fm ps t) (processTags fm ts)"

text \<open>
  \<open>merge\<close> changes the document in place; the model returns the parts of the
  document after the call, in the order of \<open>getDocumentParts\<close>.
\<close>

definition merge :: "document \<Rightarrow> (string \<rightharpoonup> string) \<Rightarrow> error + part list" where
  "merge d fm =
     (let parts = getDocumentParts d
      in andThen (collectTags 0 parts) (\<lambda>tags. processTags fm (rev tags) parts))"

section \<open>Properties of the scanner\<close>

lemma dropWhile_stop:
  "list_all P xs \<Longrightarrow> \<not> P y \<Longrightarrow> dropWhile P (xs @ y # ys) = y # ys"
  by (induction xs) auto

lemma takeWhile_stop:
  "list_all P xs \<Longrightarrow> \<not> P y \<Longrightarrow> takeWhile P (xs @ y # ys) = xs"
  by (induction xs) auto

lemma list_all_takeWhile: "list_all P (takeWhile P xs)"
  by (induction xs) auto

lemma tagConstruct_length:
  "length (tagConstruct p t q r) = length p + length t + length r + (if q then 5 else 4)"
  by (simp add: tagConstruct_def)

lemma matchPattern_construct:
  assumes "matchPattern s = Some n"
  shows "\<exists>p t q r. take n s = tagConstruct p t q r \<and> n = length (tagConstruct p t q r) \<and>
           list_all notAngle p \<and> t \<noteq> [] \<and> list_all tagChar t \<and> list_all notAngle r"
proof -
  from assms obtain r1 r2 r3 r4 where
    1: "s = CHR ''<'' # r1" and 2: "dropWhile notAngle r1 = CHR ''<'' # r2"
    and 3: "takeWhile tagChar r2 \<noteq> []"
    and 4: "optionally CHR ''?'' (dropWhile tagChar r2) = CHR ''>'' # r3"
    and 5: "dropWhile notAngle r3 = CHR ''>'' # r4" and n: "n = length s - length r4"
    by (auto simp: matchPattern_def bind_eq_Some_conv expect_Some split: if_splits)
  define p where "p = takeWhile notAngle r1"
  define t where "t = takeWhile tagChar r2"
  define r where "r = takeWhile notAngle r3"
  define q where "q = (\<exists>x. dropWhile tagChar r2 = CHR ''?'' # x)"
  have r1: "r1 = p @ CHR ''<'' # r2" using 2 p_def by (metis takeWhile_dropWhile_id)
  have r3: "r3 = r @ CHR ''>'' # r4" using 5 r_def by (metis takeWhile_dropWhile_id)
  have d: "dropWhile tagChar r2 = (if q then ''?'' else []) @ CHR ''>'' # r3"
    using 4 by (cases "dropWhile tagChar r2") (auto simp: optionally_def q_def split: if_splits)
  have r2: "r2 = t @ (if q then ''?'' else []) @ CHR ''>'' # r3"
    using d t_def by (metis takeWhile_dropWhile_id)
  have s: "s = tagConstruct p t q r @ r4"
    using 1 r1 r2 r3 by (simp add: tagConstruct_def)
  have len: "n = length (tagConstruct p t q r)" using n s by simp
  have "take n s = tagConstruct p t q r" using s len by simp
  moreover have "list_all notAngle p" "list_all tagChar t" "list_all notAngle r"
    by (simp_all add: p_def t_def r_def list_all_takeWhile)
  moreover have "t \<noteq> []" using 3 t_def by simp
  ultimately show ?thesis using len by blast
qed

lemma matchPattern_tagConstruct:
  assumes "list_all notAngle p" "t \<noteq> []" "list_all tagChar t" "list_all notAngle r"
  shows "matchPattern (tagConstruct p t q r @ rest) = Some (length (tagConstruct p t q r))"
proof -
  have a: "dropWhile notAngle (p @ CHR ''<'' # x) = CHR ''<'' # x" for x
    using assms(1) by (intro dropWhile_stop) (auto simp: notAngle_def)
  have b: "takeWhile tagChar (t @ (if q then ''?'' else []) @ CHR ''>'' # x) = t" for x
    using takeWhile_stop[OF assms(3), of "if q then CHR ''?'' else CHR ''>''"]
    by (cases q) (auto simp: tagChar_def)
  have c: "dropWhile tagChar (t @ (if q then ''?'' else []) @ CHR ''>'' # x) = (if q then ''?'' else []) @ CHR ''>'' # x" for x
    using dropWhile_stop[OF assms(3), of "if q then CHR ''?'' else CHR ''>''"]
    by (cases q) (auto simp: tagChar_def)
  have d: "dropWhile notAngle (r @ CHR ''>'' # x) = CHR ''>'' # x" for x
    using assms(4) by (intro dropWhile_stop) (auto simp: notAngle_def)
  have e: "optionally CHR ''?'' ((if q then ''?'' else []) @ CHR ''>'' # x) = CHR ''>'' # x" for x
    by (simp add: optionally_def)
  show ?thesis
    using assms(2) by (simp add: matchPattern_def tagConstruct_def a b c d e)
qed

lemma substring_nat:
  "a \<le> b \<Longrightarrow> b \<le> length s \<Longrightarrow> substring s (int a) (int b) = take (b - a) (drop a s)"
  by (simp add: substring_def Let_def min_def max_def nat_diff_distrib')

lemma splitOn_all: "list_all (\<lambda>c. \<not> P c) xs \<Longrightarrow> splitOn P xs = [xs]"
  by (induction xs) auto

lemma splitOn_sep:
  "list_all (\<lambda>c. \<not> P c) xs \<Longrightarrow> P y \<Longrightarrow> splitOn P (xs @ y # ys) = xs # splitOn P ys"
  by (induction xs) auto

lemma notAngle_isAngle: "list_all notAngle xs \<Longrightarrow> list_all (\<lambda>c. \<not> isAngle c) xs"
  by (induction xs) (auto simp: notAngle_def isAngle_def)

lemma tagChar_notAngle: "list_all tagChar xs \<Longrightarrow> list_all notAngle xs"
  by (induction xs) (auto simp: notAngle_def tagChar_def)

lemma tagChar_last: "list_all tagChar xs \<Longrightarrow> xs \<noteq> [] \<Longrightarrow> last xs \<noteq> CHR ''?''"
  by (induction xs) (auto simp: tagChar_def)

lemma substringFrom_last:
  "xs \<noteq> [] \<Longrightarrow> substringFrom xs (int (length xs) - 1) = [last xs]"
proof -
  assume n: "xs \<noteq> []"
  then have l: "int (length xs) - 1 = int (length xs - 1)" by (cases xs) auto
  have "substringFrom xs (int (length xs) - 1) = drop (length xs - 1) xs"
    unfolding substringFrom_def l using substring_nat[of "length xs - 1" "length xs" xs] n
    by (cases xs) auto
  also have "\<dots> = drop (length (butlast xs)) (butlast xs @ [last xs])"
    using n by simp
  also have "\<dots> = [last xs]" by (simp del: append_butlast_last_id)
  finally show ?thesis .
qed

lemma substring_butlast:
  "xs \<noteq> [] \<Longrightarrow> substring xs 0 (int (length xs) - 1) = butlast xs"
proof -
  assume n: "xs \<noteq> []"
  then have l: "int (length xs) - 1 = int (length xs - 1)" by (cases xs) auto
  show ?thesis
    unfolding l using substring_nat[of 0 "length xs - 1" xs] by (simp add: butlast_conv_take)
qed

lemma substring_inner:
  "substring (c # xs @ [d]) 1 (int (length (c # xs @ [d])) - 1) = xs"
proof -
  have "substring (c # xs @ [d]) (int 1) (int (Suc (length xs))) = take (Suc (length xs) - 1) (drop 1 (c # xs @ [d]))"
    by (rule substring_nat) auto
  then show ?thesis by simp
qed

text \<open>What the loop body of findAllTags computes from a matched string.\<close>

definition tagOf :: "nat \<Rightarrow> rangeElement \<Rightarrow> string \<Rightarrow> string \<Rightarrow> bool \<Rightarrow> string \<Rightarrow> tag" where
  "tagOf n rng p t q r =
     \<lparr>matchText = tagConstruct p t q r, tagRange = rng, text1 = p, tagName = t,
      text2 = r, opt = q, docPart = n\<rparr>"

lemma decompose_construct:
  assumes g: "getStringFromRange dp rng = Inr (tagConstruct p t q r)"
    and p: "list_all notAngle p" and t: "t \<noteq> []" "list_all tagChar t" and r: "list_all notAngle r"
  shows "decompose n dp rng = Inr (tagOf n rng p t q r)"
proof -
  let ?m = "tagConstruct p t q r"
  let ?a1 = "t @ (if q then ''?'' else [])"
  have m: "?m = CHR ''<'' # (p @ CHR ''<'' # ?a1 @ CHR ''>'' # r) @ ''>''"
    by (simp add: tagConstruct_def)
  have inner: "substring ?m 1 (int (length ?m) - 1) = p @ CHR ''<'' # ?a1 @ CHR ''>'' # r"
    unfolding m by (rule substring_inner)
  have a1: "list_all (\<lambda>c. \<not> isAngle c) ?a1"
    using notAngle_isAngle[OF tagChar_notAngle[OF t(2)]] by (auto simp: isAngle_def)
  have s1: "splitOn isAngle (p @ CHR ''<'' # ?a1 @ CHR ''>'' # r) = p # splitOn isAngle (?a1 @ CHR ''>'' # r)"
    by (rule splitOn_sep[OF notAngle_isAngle[OF p]]) (simp add: isAngle_def)
  have s2: "splitOn isAngle (?a1 @ CHR ''>'' # r) = ?a1 # splitOn isAngle r"
    by (rule splitOn_sep[OF a1]) (simp add: isAngle_def)
  have sp: "splitOn isAngle (p @ CHR ''<'' # ?a1 @ CHR ''>'' # r) = [p, ?a1, r]"
    unfolding s1 s2 splitOn_all[OF notAngle_isAngle[OF r]] ..
  have ne: "?a1 \<noteq> []" using t by simp
  have la: "last ?a1 = CHR ''?'' \<longleftrightarrow> q" using tagChar_last[OF t(2) t(1)] by auto
  have q: "(substringFrom ?a1 (int (length ?a1) - 1) = ''?'') = q"
    unfolding substringFrom_last[OF ne] using la by simp
  have bl: "q \<Longrightarrow> substring ?a1 0 (int (length ?a1) - 1) = t"
    unfolding substring_butlast[OF ne] by simp
  have "decompose n dp rng =
      (let a = [p, ?a1, r]
       in case (at a 0, at a 1, at a 2) of
            (Some a0, Some a1, Some a2) \<Rightarrow>
              (let q = (substringFrom a1 (int (length a1) - 1) = ''?'');
                   t = (if q then substring a1 0 (int (length a1) - 1) else a1)
               in Inr \<lparr>matchText = ?m, tagRange = rng, text1 = a0, tagName = t,
                        text2 = a2, opt = q, docPart = n\<rparr>)
          | _ \<Rightarrow> Inl TypeError)"
    unfolding decompose_def g sum.case inner sp ..
  also have "\<dots> = Inr \<lparr>matchText = ?m, tagRange = rng, text1 = p,
        tagName = (if q then substring ?a1 0 (int (length ?a1) - 1) else ?a1),
        text2 = r, opt = q, docPart = n\<rparr>"
    unfolding Let_def at_def using q by simp
  also have "\<dots> = Inr (tagOf n rng p t q r)"
    using bl by (cases q) (simp_all add: tagOf_def)
  finally show ?thesis .
qed

definition validFound :: "string list \<Rightarrow> found \<Rightarrow> bool" where
  "validFound ts r = (case r of (k, a, b) \<Rightarrow>
     k < length ts \<and> a \<le> b \<and> b < length (ts ! k) \<and> matchPattern (drop a (ts ! k)) = Some (Suc b - a))"

definition before :: "found \<Rightarrow> found \<Rightarrow> bool" where
  "before r r' = (case r of (k, a, b) \<Rightarrow> case r' of (k', a', b') \<Rightarrow> k < k' \<or> (k = k' \<and> b < a'))"

definition position :: "part \<Rightarrow> nat \<Rightarrow> nat" where
  "position dp c = length (takeWhile (\<lambda>x. cid x \<noteq> c) (containers dp))"

definition precedes :: "part \<Rightarrow> tag \<Rightarrow> tag \<Rightarrow> bool" where
  "precedes dp t u =
     (position dp (element (tagRange t)) < position dp (element (tagRange u)) \<or>
      (element (tagRange t) = element (tagRange u) \<and>
       endOffsetInclusive (tagRange t) < startOffset (tagRange u)))"

lemma findText_first: "findText ts None = Some r \<Longrightarrow> validFound ts r"
  using findInElements_spec[of 0 0 ts "fst r" "fst (snd r)" "snd (snd r)"]
  by (cases r) (auto simp: findText_def validFound_def)

lemma findText_next:
  assumes "findText ts (Some r) = Some r'"
  shows "validFound ts r' \<and> before r r'"
proof -
  obtain k a b where r: "r = (k, a, b)" by (cases r)
  obtain k' a' b' where r': "r' = (k', a', b')" by (cases r')
  from assms r r' have "findInElements k (Suc b) (drop k ts) = Some (k', a', b')"
    by (simp add: findText_def)
  from findInElements_spec[OF this]
  have *: "k \<le> k'" "k' < k + length (drop k ts)" "b' < length (drop k ts ! (k' - k))"
    "k' = k \<longrightarrow> Suc b \<le> a'" "a' \<le> b'" "matchPattern (drop a' (drop k ts ! (k' - k))) = Some (Suc b' - a')"
    by auto
  then have "k' < length ts" "drop k ts ! (k' - k) = ts ! k'" by auto
  with * show ?thesis unfolding r r' validFound_def before_def by auto
qed

lemma before_trans: "before x y \<Longrightarrow> validFound ts y \<Longrightarrow> before y z \<Longrightarrow> before x z"
  by (auto simp: before_def validFound_def split: prod.splits)

lemma loop_invariant:
  "sorted_wrt before (res @ (case rng of None \<Rightarrow> [] | Some r \<Rightarrow> [r])) \<Longrightarrow>
   list_all (validFound ts) (res @ (case rng of None \<Rightarrow> [] | Some r \<Rightarrow> [r])) \<Longrightarrow>
   sorted_wrt before (findAllRanges_loop ts rng res) \<and>
   list_all (validFound ts) (findAllRanges_loop ts rng res)"
proof (induction ts rng res rule: findAllRanges_loop.induct)
  case (1 ts rng res)
  show ?case
  proof (cases rng)
    case None
    with 1 show ?thesis by (simp add: findAllRanges_loop.simps[of ts None])
  next
    case (Some r)
    let ?n = "findText ts (Some r)"
    have s: "sorted_wrt before (res @ [r])" and v: "list_all (validFound ts) (res @ [r])"
      using 1(2,3) Some by auto
    have "sorted_wrt before ((res @ [r]) @ (case ?n of None \<Rightarrow> [] | Some r \<Rightarrow> [r])) \<and>
          list_all (validFound ts) ((res @ [r]) @ (case ?n of None \<Rightarrow> [] | Some r \<Rightarrow> [r]))"
    proof (cases ?n)
      case None
      then show ?thesis using s v by simp
    next
      case (Some r')
      from findText_next[OF Some] have r': "validFound ts r'" "before r r'" by auto
      have "\<forall>x\<in>set (res @ [r]). before x r'"
      proof
        fix x assume "x \<in> set (res @ [r])"
        then consider "x = r" | "x \<in> set res" by auto
        then show "before x r'"
        proof cases
          case 1 then show ?thesis using r' by simp
        next
          case 2
          with s have "before x r" by (auto simp: sorted_wrt_append)
          moreover have "validFound ts r" using v by simp
          ultimately show ?thesis using r'(2) by (rule before_trans)
        qed
      qed
      then show ?thesis using s v r' Some by (simp add: sorted_wrt_append)
    qed
    from 1(1)[OF Some] this have "sorted_wrt before (findAllRanges_loop ts ?n (res @ [r])) \<and>
       list_all (validFound ts) (findAllRanges_loop ts ?n (res @ [r]))" by blast
    then show ?thesis using Some by (simp add: findAllRanges_loop.simps[of ts "Some r"])
  qed
qed

lemma findAllRanges_loop_spec:
  "sorted_wrt before (findAllRanges_loop ts (findText ts None) []) \<and>
   list_all (validFound ts) (findAllRanges_loop ts (findText ts None) [])"
proof (rule loop_invariant)
  show "sorted_wrt before ([] @ (case findText ts None of None \<Rightarrow> [] | Some r \<Rightarrow> [r]))"
    by (cases "findText ts None") auto
  show "list_all (validFound ts) ([] @ (case findText ts None of None \<Rightarrow> [] | Some r \<Rightarrow> [r]))"
    using findText_first by (cases "findText ts None") auto
qed

definition spanOf :: "part \<Rightarrow> tag \<Rightarrow> string option" where
  "spanOf dp t =
     (case getContainer dp (element (tagRange t)) of
        None \<Rightarrow> None
      | Some x \<Rightarrow>
          if startOffset (tagRange t) \<le> endOffsetInclusive (tagRange t) \<and>
             endOffsetInclusive (tagRange t) < length (getText x)
          then Some (take (Suc (endOffsetInclusive (tagRange t)) - startOffset (tagRange t))
                      (drop (startOffset (tagRange t)) (getText x)))
          else None)"

definition wellFormedTag :: "tag \<Rightarrow> bool" where
  "wellFormedTag t =
     (list_all notAngle (text1 t) \<and> list_all notAngle (text2 t) \<and>
      tagName t \<noteq> [] \<and> list_all tagChar (tagName t) \<and>
      matchText t = tagConstruct (text1 t) (tagName t) (opt t) (text2 t))"

lemma find_distinct:
  "distinct (map f xs) \<Longrightarrow> k < length xs \<Longrightarrow> find (\<lambda>x. f x = f (xs ! k)) xs = Some (xs ! k)"
proof (induction xs arbitrary: k)
  case Nil then show ?case by simp
next
  case (Cons x xs)
  show ?case
  proof (cases k)
    case 0 then show ?thesis by simp
  next
    case (Suc j)
    with Cons.prems have "j < length xs" "f (xs ! j) \<in> f ` set xs" by auto
    with Cons.prems have "f x \<noteq> f (xs ! j)" by auto
    with Cons Suc show ?thesis by auto
  qed
qed

lemma takeWhile_distinct:
  "distinct (map f xs) \<Longrightarrow> k < length xs \<Longrightarrow>
     length (takeWhile (\<lambda>x. f x \<noteq> f (xs ! k)) xs) = k"
proof (induction xs arbitrary: k)
  case Nil then show ?case by simp
next
  case (Cons x xs)
  show ?case
  proof (cases k)
    case 0 then show ?thesis by simp
  next
    case (Suc j)
    with Cons.prems have "j < length xs" "f (xs ! j) \<in> f ` set xs" by auto
    with Cons.prems have "f x \<noteq> f (xs ! j)" by auto
    with Cons Suc show ?thesis by auto
  qed
qed

lemma position_distinct:
  "distinct (map cid (containers dp)) \<Longrightarrow> k < length (containers dp) \<Longrightarrow>
     position dp (cid (containers dp ! k)) = k"
  unfolding position_def by (rule takeWhile_distinct)

lemma decompose_found:
  assumes d: "distinct (map cid (containers dp))"
    and v: "validFound (map getText (containers dp)) r"
  shows "\<exists>t. decompose n dp (toRange dp r) = Inr t \<and> tagRange t = toRange dp r \<and>
             docPart t = n \<and> wellFormedTag t \<and> spanOf dp t = Some (matchText t)"
proof -
  obtain k a b where r: "r = (k, a, b)" by (cases r)
  let ?x = "containers dp ! k"
  let ?rng = "toRange dp r"
  from v r have k: "k < length (containers dp)" and ab: "a \<le> b" "b < length (getText ?x)"
    and m: "matchPattern (drop a (getText ?x)) = Some (Suc b - a)"
    by (auto simp: validFound_def)
  have g: "getContainer dp (element ?rng) = Some ?x"
    using find_distinct[OF d k] by (simp add: getContainer_def toRange_def r)
  from matchPattern_construct[OF m] obtain p t q s where
    c: "take (Suc b - a) (drop a (getText ?x)) = tagConstruct p t q s"
    and w: "list_all notAngle p" "t \<noteq> []" "list_all tagChar t" "list_all notAngle s"
    by blast
  have sub: "substring (getText ?x) (int a) (int b + 1) = take (Suc b - a) (drop a (getText ?x))"
    using substring_nat[of a "Suc b" "getText ?x"] ab by (simp add: add.commute)
  have whole: "\<not> isPartial ?x ?rng \<Longrightarrow> getText ?x = take (Suc b - a) (drop a (getText ?x))"
    by (simp add: isPartial_def toRange_def r)
  have "getStringFromRange dp ?rng = Inr (take (Suc b - a) (drop a (getText ?x)))"
    unfolding getStringFromRange_def g option.case using sub whole
    by (cases "isPartial ?x ?rng") (simp_all add: toRange_def r)
  then have gs: "getStringFromRange dp ?rng = Inr (tagConstruct p t q s)" using c by simp
  have dec: "decompose n dp ?rng = Inr (tagOf n ?rng p t q s)"
    by (rule decompose_construct[OF gs w])
  have "spanOf dp (tagOf n ?rng p t q s) = Some (matchText (tagOf n ?rng p t q s))"
    using g ab c by (simp add: spanOf_def tagOf_def toRange_def r)
  moreover have "wellFormedTag (tagOf n ?rng p t q s)"
    using w by (simp add: wellFormedTag_def tagOf_def)
  ultimately show ?thesis using dec by (auto simp: tagOf_def)
qed

lemma traverse_all:
  "(\<And>x. x \<in> set xs \<Longrightarrow> \<exists>y. f x = Inr y \<and> R x y) \<Longrightarrow>
     \<exists>ys. traverse f xs = Inr ys \<and> list_all2 R xs ys"
proof (induction xs)
  case Nil then show ?case by simp
next
  case (Cons x xs)
  from Cons.prems[of x] obtain y where y: "f x = Inr y" "R x y" by auto
  from Cons.IH Cons.prems obtain ys where ys: "traverse f xs = Inr ys" "list_all2 R xs ys"
    by (metis list.set_intros(2))
  show ?case using y ys by simp
qed

lemma sorted_wrt_list_all2:
  "list_all2 R xs ys \<Longrightarrow> sorted_wrt P xs \<Longrightarrow>
     (\<And>x x' y y'. x \<in> set xs \<Longrightarrow> x' \<in> set xs \<Longrightarrow> P x x' \<Longrightarrow> R x y \<Longrightarrow> R x' y' \<Longrightarrow> Q y y') \<Longrightarrow>
     sorted_wrt Q ys"
proof (induction rule: list_all2_induct)
  case Nil then show ?case by simp
next
  case (Cons x xs y ys)
  have "\<forall>y'\<in>set ys. Q y y'"
  proof
    fix y' assume "y' \<in> set ys"
    with Cons.hyps(2) obtain x' where x': "x' \<in> set xs" "R x' y'"
      by (metis in_set_conv_nth list_all2_conv_all_nth)
    with Cons.prems(1) have "P x x'" by simp
    then show "Q y y'" using Cons.prems(2)[of x x' y y'] x' Cons.hyps(1) by simp
  qed
  moreover have "sorted_wrt Q ys" using Cons by auto
  ultimately show ?case by simp
qed

definition scanned :: "nat \<Rightarrow> part \<Rightarrow> found \<Rightarrow> tag \<Rightarrow> bool" where
  "scanned n dp r t = (tagRange t = toRange dp r \<and> docPart t = n \<and> wellFormedTag t \<and>
      spanOf dp t = Some (matchText t))"

lemma findAllTags_scanned:
  assumes d: "distinct (map cid (containers dp))"
  shows "\<exists>tags. findAllTags n dp = Inr tags \<and>
           list_all2 (scanned n dp) (findAllRanges_loop (map getText (containers dp))
              (findText (map getText (containers dp)) None) []) tags"
proof -
  let ?ts = "map getText (containers dp)"
  let ?fs = "findAllRanges_loop ?ts (findText ?ts None) []"
  have v: "list_all (validFound ?ts) ?fs" using findAllRanges_loop_spec by blast
  have "\<exists>ys. traverse (\<lambda>r. decompose n dp (toRange dp r)) ?fs = Inr ys \<and> list_all2 (scanned n dp) ?fs ys"
  proof (rule traverse_all)
    fix r assume "r \<in> set ?fs"
    with v have "validFound ?ts r" by (simp add: list_all_iff)
    from decompose_found[OF d this, of n]
    show "\<exists>y. decompose n dp (toRange dp r) = Inr y \<and> scanned n dp r y"
      by (auto simp: scanned_def)
  qed
  moreover have "traverse (decompose n dp) (map (toRange dp) xs) = traverse (\<lambda>r. decompose n dp (toRange dp r)) xs" for xs
    by (induction xs) (simp_all cong: sum.case_cong)
  ultimately show ?thesis by (simp add: findAllTags_def findAllRanges_def Let_def)
qed

text \<open>
  Claim C6. Every tag that the scanner produces, on a part whose elements are distinct
  objects: its prefix \<open>text1\<close> and suffix \<open>text2\<close> hold no angle bracket, its
  \<open>tagName\<close> holds no angle bracket and no question mark, and the matched text, which
  is the text of the element between the offsets of the range, is
  \<open><text1<tagName>text2>\<close> with a question mark after the name exactly when
  \<open>opt\<close> is set. The scanner raises no error.
\<close>

theorem findAllTags_fields:
  assumes "distinct (map cid (containers dp))"
  shows "\<exists>tags. findAllTags n dp = Inr tags \<and>
           (\<forall>t\<in>set tags.
              list_all notAngle (text1 t) \<and> list_all notAngle (text2 t) \<and>
              list_all tagChar (tagName t) \<and>
              spanOf dp t = Some (matchText t) \<and>
              matchText t = tagConstruct (text1 t) (tagName t) (opt t) (text2 t))"
proof -
  from findAllTags_scanned[OF assms, of n] obtain tags fs where
    t: "findAllTags n dp = Inr tags" and l: "list_all2 (scanned n dp) fs tags" by blast
  have "\<forall>t\<in>set tags. wellFormedTag t \<and> spanOf dp t = Some (matchText t)"
  proof
    fix t assume "t \<in> set tags"
    with l obtain r where "scanned n dp r t"
      by (metis in_set_conv_nth list_all2_conv_all_nth)
    then show "wellFormedTag t \<and> spanOf dp t = Some (matchText t)" by (simp add: scanned_def)
  qed
  with t show ?thesis by (auto simp: wellFormedTag_def)
qed

text \<open>
  Claim C7. The tags of a part come in document order: of two tags, the earlier one
  lies in an earlier element, or in the same element and ends before the later one
  starts; every range has its start at or before its end, so that the spans of two
  tags of one element never overlap.
\<close>

theorem findAllTags_ordered:
  assumes "distinct (map cid (containers dp))"
  shows "\<exists>tags. findAllTags n dp = Inr tags \<and> sorted_wrt (precedes dp) tags \<and>
           (\<forall>t\<in>set tags. startOffset (tagRange t) \<le> endOffsetInclusive (tagRange t))"
proof -
  let ?ts = "map getText (containers dp)"
  let ?fs = "findAllRanges_loop ?ts (findText ?ts None) []"
  from findAllTags_scanned[OF assms, of n] obtain tags where
    t: "findAllTags n dp = Inr tags" and l: "list_all2 (scanned n dp) ?fs tags" by blast
  have s: "sorted_wrt before ?fs" and v: "list_all (validFound ?ts) ?fs"
    using findAllRanges_loop_spec by blast+
  have "sorted_wrt (precedes dp) tags"
  proof (rule sorted_wrt_list_all2[OF l s])
    fix x x' y y'
    assume x: "x \<in> set ?fs" "x' \<in> set ?fs" and b: "before x x'"
      and y: "scanned n dp x y" "scanned n dp x' y'"
    obtain k a b where r: "x = (k, a, b)" by (cases x)
    obtain k' a' b' where r': "x' = (k', a', b')" by (cases x')
    from x v r r' have kk: "k < length (containers dp)" "k' < length (containers dp)"
      by (auto simp: list_all_iff validFound_def)
    have p: "position dp (element (tagRange y)) = k" "position dp (element (tagRange y')) = k'"
      using y r r' position_distinct[OF assms] kk by (auto simp: scanned_def toRange_def)
    show "precedes dp y y'"
      using b y r r' unfolding precedes_def p by (auto simp: before_def scanned_def toRange_def)
  qed
  moreover have "\<forall>t\<in>set tags. startOffset (tagRange t) \<le> endOffsetInclusive (tagRange t)"
  proof
    fix t assume "t \<in> set tags"
    with l obtain r where "r \<in> set ?fs" "scanned n dp r t"
      by (metis in_set_conv_nth list_all2_conv_all_nth)
    with v show "startOffset (tagRange t) \<le> endOffsetInclusive (tagRange t)"
      by (cases r) (auto simp: list_all_iff validFound_def scanned_def toRange_def)
  qed
  ultimately show ?thesis using t by blast
qed

section \<open>Properties of the substitution engine\<close>

lemma deleteText_mid:
  "ys \<noteq> [] \<Longrightarrow> a = int (length xs) \<Longrightarrow> b = int (length xs + length ys) - 1 \<Longrightarrow>
     deleteText (xs @ ys @ zs) a b = Inr (xs @ zs)"
  by (cases ys) (auto simp: deleteText_def nat_add_distrib)

lemma insertText_mid:
  "a = int (length xs) \<Longrightarrow> insertText (xs @ zs) a v = Inr (xs @ v @ zs)"
  by (simp add: insertText_def)

lemma replaceTag_construct:
  assumes s: "s = pre @ tagConstruct t1 nm q t2 @ post"
    and f: "firstOff = int (length pre)"
    and l: "lastOff = int (length pre + length (tagConstruct t1 nm q t2)) - 1"
  shows "replaceTag s firstOff lastOff t1 t2 v (if length v > 0 then t1 @ v @ t2 else []) =
           Inr (pre @ (if length v > 0 then t1 @ v @ t2 else []) @ post)"
proof (cases "v = []")
  case True
  have "tagConstruct t1 nm q t2 \<noteq> []" by (simp add: tagConstruct_def)
  from deleteText_mid[OF this f l] show ?thesis using True s by (simp add: replaceTag_def)
next
  case False
  let ?o = "if q then ''?'' else []"
  let ?tp = "firstOff + 1 + int (length t1) + 1"
  have 1: "deleteText s (lastOff - 1 + 1) lastOff = Inr ((pre @ ''<'' @ t1 @ ''<'' @ nm @ ?o @ ''>'' @ t2) @ post)"
  proof -
    have "deleteText ((pre @ ''<'' @ t1 @ ''<'' @ nm @ ?o @ ''>'' @ t2) @ ''>'' @ post) (lastOff - 1 + 1) lastOff
       = Inr ((pre @ ''<'' @ t1 @ ''<'' @ nm @ ?o @ ''>'' @ t2) @ post)"
      by (rule deleteText_mid) (auto simp: l tagConstruct_def)
    then show ?thesis by (simp add: s tagConstruct_def)
  qed
  have 2: "deleteText ((pre @ ''<'' @ t1 @ ''<'' @ nm @ ?o @ ''>'' @ t2) @ post) ?tp (lastOff - 1 - int (length t2))
      = Inr ((pre @ ''<'' @ t1 @ ''<'') @ t2 @ post)"
  proof -
    have "deleteText ((pre @ ''<'' @ t1 @ ''<'') @ (nm @ ?o @ ''>'') @ (t2 @ post)) ?tp (lastOff - 1 - int (length t2))
      = Inr ((pre @ ''<'' @ t1 @ ''<'') @ (t2 @ post))"
      by (rule deleteText_mid) (auto simp: f l tagConstruct_def)
    then show ?thesis by simp
  qed
  have 3: "insertText ((pre @ ''<'' @ t1 @ ''<'') @ t2 @ post) ?tp v = Inr ((pre @ ''<'' @ t1 @ ''<'') @ v @ t2 @ post)"
    by (rule insertText_mid) (simp add: f)
  have 4: "deleteText ((pre @ ''<'' @ t1 @ ''<'') @ v @ t2 @ post) (?tp - 1) (?tp - 1) = Inr ((pre @ ''<'' @ t1) @ v @ t2 @ post)"
  proof -
    have "deleteText ((pre @ ''<'' @ t1) @ ''<'' @ (v @ t2 @ post)) (?tp - 1) (?tp - 1) = Inr ((pre @ ''<'' @ t1) @ (v @ t2 @ post))"
      by (rule deleteText_mid) (auto simp: f)
    then show ?thesis by simp
  qed
  have 5: "deleteText ((pre @ ''<'' @ t1) @ v @ t2 @ post) firstOff (firstOff + 1 - 1) = Inr (pre @ t1 @ v @ t2 @ post)"
  proof -
    have "deleteText (pre @ ''<'' @ (t1 @ v @ t2 @ post)) firstOff (firstOff + 1 - 1) = Inr (pre @ (t1 @ v @ t2 @ post))"
      by (rule deleteText_mid) (auto simp: f)
    then show ?thesis by simp
  qed
  have nz: "length (t1 @ v @ t2) > 0" using False by simp
  have "replaceTag s firstOff lastOff t1 t2 v (t1 @ v @ t2) = Inr (pre @ t1 @ v @ t2 @ post)"
    unfolding replaceTag_def Let_def andThen_def if_P[OF nz] 1 sum.case 2 3 4 5 ..
  then show ?thesis using False by simp
qed

lemma spanOf_split:
  assumes "spanOf p t = Some m" "getContainer p (element (tagRange t)) = Some el"
  shows "getText el = take (startOffset (tagRange t)) (getText el) @ m @
            drop (Suc (endOffsetInclusive (tagRange t))) (getText el) \<and>
         startOffset (tagRange t) \<le> endOffsetInclusive (tagRange t) \<and>
         endOffsetInclusive (tagRange t) < length (getText el) \<and>
         length m = Suc (endOffsetInclusive (tagRange t)) - startOffset (tagRange t)"
proof -
  let ?s = "startOffset (tagRange t)" and ?e = "endOffsetInclusive (tagRange t)" and ?x = "getText el"
  from assms have se: "?s \<le> ?e" "?e < length ?x" and m: "m = take (Suc ?e - ?s) (drop ?s ?x)"
    by (auto simp: spanOf_def split: if_splits)
  have "drop ?s ?x = take (Suc ?e - ?s) (drop ?s ?x) @ drop (Suc ?e - ?s) (drop ?s ?x)"
    by (simp only: append_take_drop_id)
  also have "drop (Suc ?e - ?s) (drop ?s ?x) = drop (Suc ?e) ?x" using se by simp
  finally have "drop ?s ?x = m @ drop (Suc ?e) ?x" using m by simp
  then have "?x = take ?s ?x @ m @ drop (Suc ?e) ?x" by (metis append_take_drop_id)
  moreover have "length m = Suc ?e - ?s" using m se by simp
  ultimately show ?thesis using se by simp
qed

lemma editText_result:
  assumes w: "wellFormedTag t" and sp: "spanOf p t = Some (matchText t)"
    and g: "getContainer p (element (tagRange t)) = Some el"
  shows "editText el t v =
           Inr (take (startOffset (tagRange t)) (getText el) @
                (if shiftedValue el t v = [] then []
                 else text1 t @ shiftedValue el t v @ text2 t) @
                drop (Suc (endOffsetInclusive (tagRange t))) (getText el)) \<and>
         shiftedValue el t v =
           (if isItem el \<and> matchText t = getText el \<and> text1 t = [] \<and> text2 t = []
            then hd (splitOn isNewline v) else v)"
proof -
  let ?s = "startOffset (tagRange t)" and ?e = "endOffsetInclusive (tagRange t)" and ?x = "getText el"
  let ?c = "tagConstruct (text1 t) (tagName t) (opt t) (text2 t)"
  from w have m: "matchText t = ?c" by (simp add: wellFormedTag_def)
  from spanOf_split[OF sp g] m have
    x: "?x = take ?s ?x @ ?c @ drop (Suc ?e) ?x" and se: "?s \<le> ?e" "?e < length ?x"
    and len: "length ?c = Suc ?e - ?s" by auto
  have f: "int ?s = int (length (take ?s ?x))" using se by simp
  have l: "int ?e = int (length (take ?s ?x) + length ?c) - 1" using se len by simp
  have "replaceTag ?x (int ?s) (int ?e) (text1 t) (text2 t) (shiftedValue el t v)
          (if length (shiftedValue el t v) > 0 then text1 t @ shiftedValue el t v @ text2 t else [])
        = Inr (take ?s ?x @ (if length (shiftedValue el t v) > 0 then text1 t @ shiftedValue el t v @ text2 t else [])
               @ drop (Suc ?e) ?x)"
    by (rule replaceTag_construct[OF x f l])
  then have "editText el t v =
           Inr (take ?s ?x @ (if shiftedValue el t v = [] then [] else text1 t @ shiftedValue el t v @ text2 t) @
                drop (Suc ?e) ?x)"
    by (simp add: editText_def replaceTxt_def)
  moreover have "length (splitOn isNewline v) > 0" by (cases v) (auto split: list.splits)
  then have "shiftedValue el t v =
           (if isItem el \<and> matchText t = getText el \<and> text1 t = [] \<and> text2 t = []
            then hd (splitOn isNewline v) else v)"
    by (simp add: shiftedValue_def isNewItemsCase_def isFullRep_def)
  ultimately show ?thesis by simp
qed

text \<open>
  Claim C1, amended. The text of the element after the edit of a tag is the text before
  the match, then the replacement, then the text after the match. The replacement is
  \<open>text1 + value + text2\<close> when the value is not empty, and nothing when it is
  empty, so that the whole match goes, prefix and suffix included. The value is the
  one found for the tag, except for a list item whose whole text is the match, with
  no prefix and no suffix: there it is the first line of the value found.
\<close>

theorem editText_replaces:
  assumes w: "wellFormedTag t" and sp: "spanOf p t = Some (matchText t)"
    and g: "getContainer p (element (tagRange t)) = Some el"
  shows "editText el t v =
           Inr (take (startOffset (tagRange t)) (getText el) @
                (if shiftedValue el t v = [] then []
                 else text1 t @ shiftedValue el t v @ text2 t) @
                drop (Suc (endOffsetInclusive (tagRange t))) (getText el)) \<and>
         shiftedValue el t v =
           (if isItem el \<and> matchText t = getText el \<and> text1 t = [] \<and> text2 t = []
            then hd (splitOn isNewline v) else v)"
  using assms by (rule editText_result)

lemma processTags_skip:
  "(\<And>t. t \<in> set ts \<Longrightarrow> resolve fm t = None) \<Longrightarrow> processTags fm ts ps = Inr ps"
  by (induction ts) (simp_all add: processTag_def andThen_def)

text \<open>
  Claim C2. A tag whose name is in the field map takes the mapped value; a tag whose
  name is not in the map takes the empty string when it is optional; otherwise the
  tag is skipped: the loop body leaves every part of the document as it is, with no
  edit and no removal. A sequence of tags that are all skipped leaves the document
  unchanged.
\<close>

theorem resolve_cases:
  "(fm (tagName t) = Some v \<longrightarrow> resolve fm t = Some v) \<and>
   (fm (tagName t) = None \<and> opt t \<longrightarrow> resolve fm t = Some []) \<and>
   (fm (tagName t) = None \<and> \<not> opt t \<longrightarrow> resolve fm t = None \<and> processTag fm ps t = Inr ps) \<and>
   ((\<forall>u\<in>set ts. fm (tagName u) = None \<and> \<not> opt u) \<longrightarrow> processTags fm ts ps = Inr ps)"
proof -
  have "(\<forall>u\<in>set ts. fm (tagName u) = None \<and> \<not> opt u) \<Longrightarrow> processTags fm ts ps = Inr ps"
    by (rule processTags_skip) (simp add: resolve_def)
  then show ?thesis by (auto simp: resolve_def processTag_def)
qed

lemma containers_append [simp]: "containers (p @ q) = containers p @ containers q"
  by (simp add: containers_def)

lemma containers_Nil [simp]: "containers [] = []"
  by (simp add: containers_def)

lemma containers_Cons [simp]: "containers (b # p) = blockContainers b @ containers p"
  by (simp add: containers_def)

lemma find_unique:
  "distinct (map f xs) \<Longrightarrow> x \<in> set xs \<Longrightarrow> find (\<lambda>y. f y = f x) xs = Some x"
  by (metis find_distinct in_set_conv_nth)

lemma firstIndex_append:
  "\<forall>x\<in>set xs. \<not> P x \<Longrightarrow> P y \<Longrightarrow> firstIndex P (xs @ y # ys) = Some (length xs)"
  by (induction xs) auto

lemma firstIndex_None: "\<forall>x\<in>set xs. \<not> P x \<Longrightarrow> firstIndex P xs = None"
  by (induction xs) auto

lemma hasId_iff: "hasId c xs \<longleftrightarrow> c \<in> cid ` set xs"
  by (auto simp: hasId_def list_ex_iff)

definition idsOf :: "part \<Rightarrow> nat set" where
  "idsOf p = cid ` set (containers p)"

lemma idsOf_simps [simp]:
  "idsOf [] = {}"
  "idsOf (p @ q) = idsOf p \<union> idsOf q"
  "idsOf (Leaf x # p) = insert (cid x) (idsOf p)"
  "idsOf (Table rows # p) = cid ` set (concat (concat rows)) \<union> idsOf p"
  by (auto simp: idsOf_def)

lemma removeFromParent_append:
  "removeFromParent c (p @ q) = removeFromParent c p @ removeFromParent c q"
  by (induction c p rule: removeFromParent.induct) auto

lemma filter_absent: "c \<notin> cid ` set xs \<Longrightarrow> filter (\<lambda>x. cid x \<noteq> c) xs = xs"
  by (induction xs) auto

lemma map_filter_absent:
  "c \<notin> cid ` set (concat row) \<Longrightarrow> map (filter (\<lambda>x. cid x \<noteq> c)) row = row"
  by (induction row) (auto intro!: filter_absent)

lemma map_map_filter_absent:
  "c \<notin> cid ` set (concat (concat rows)) \<Longrightarrow> map (map (filter (\<lambda>x. cid x \<noteq> c))) rows = rows"
  by (induction rows) (auto intro!: map_filter_absent)

lemma removeFromParent_absent: "c \<notin> idsOf p \<Longrightarrow> removeFromParent c p = p"
  by (induction c p rule: removeFromParent.induct) (auto simp: map_map_filter_absent)

lemma allEmpty_iff: "allEmpty row \<longleftrightarrow> list_all (\<lambda>cell. cellText cell = []) row"
  by (induction row) auto

lemma getChildIndex_absent_block:
  "c \<notin> idsOf p \<Longrightarrow> \<forall>b\<in>set p. \<not> (case b of Leaf x \<Rightarrow> cid x = c | Table rows \<Rightarrow> False)"
proof (induction p)
  case Nil then show ?case by simp
next
  case (Cons b p) then show ?case by (cases b) auto
qed

lemma hasId_absent_block: "c \<notin> idsOf p \<Longrightarrow> \<forall>b\<in>set p. \<not> hasId c (blockContainers b)"
  by (induction p) (auto simp: hasId_iff idsOf_def)

text \<open>The two places of an element in a part.\<close>

lemma topLevel_facts:
  assumes d: "distinct (map cid (containers (pre @ Leaf pg # post)))"
  shows "getContainer (pre @ Leaf pg # post) (cid pg) = Some pg"
    and "cid pg \<notin> idsOf pre" and "cid pg \<notin> idsOf post"
    and "parentCell (pre @ Leaf pg # post) (cid pg) = None"
    and "getChildIndex (pre @ Leaf pg # post) (cid pg) = Some (length pre)"
    and "removeFromParent (cid pg) (pre @ Leaf pg # post) = pre @ post"
proof -
  show g: "getContainer (pre @ Leaf pg # post) (cid pg) = Some pg"
    unfolding getContainer_def by (rule find_unique[OF d]) simp
  show a: "cid pg \<notin> idsOf pre" and b: "cid pg \<notin> idsOf post"
    using d by (auto simp: idsOf_def)
  have "firstIndex (\<lambda>b. hasId (cid pg) (blockContainers b)) (pre @ Leaf pg # post) = Some (length pre)"
    by (rule firstIndex_append) (use hasId_absent_block[OF a] in \<open>auto simp: hasId_iff\<close>)
  then show "parentCell (pre @ Leaf pg # post) (cid pg) = None"
    by (simp add: parentCell_def)
  show "getChildIndex (pre @ Leaf pg # post) (cid pg) = Some (length pre)"
    unfolding getChildIndex_def
    by (rule firstIndex_append) (use getChildIndex_absent_block[OF a] in auto)
  show "removeFromParent (cid pg) (pre @ Leaf pg # post) = pre @ post"
    using a b by (simp add: removeFromParent_append removeFromParent_absent)
qed

lemma inCell_facts:
  assumes d: "distinct (map cid (containers (pre @ Table (rs1 @ (cs1 @ (xs @ pg # ys) # cs2) # rs2) # post)))"
  shows "getContainer (pre @ Table (rs1 @ (cs1 @ (xs @ pg # ys) # cs2) # rs2) # post) (cid pg) = Some pg"
    and "parentCell (pre @ Table (rs1 @ (cs1 @ (xs @ pg # ys) # cs2) # rs2) # post) (cid pg)
           = Some (length pre, length rs1, length cs1)"
    and "getChildIndex (pre @ Table (rs1 @ (cs1 @ (xs @ pg # ys) # cs2) # rs2) # post) (cid pg) = None"
    and "removeFromParent (cid pg) (pre @ Table (rs1 @ (cs1 @ (xs @ pg # ys) # cs2) # rs2) # post)
           = pre @ Table (rs1 @ (cs1 @ (xs @ ys) # cs2) # rs2) # post"
proof -
  let ?c = "cid pg"
  let ?rows = "rs1 @ (cs1 @ (xs @ pg # ys) # cs2) # rs2"
  let ?p = "pre @ Table ?rows # post"
  show "getContainer ?p ?c = Some pg"
    unfolding getContainer_def by (rule find_unique[OF d]) simp
  have a: "?c \<notin> idsOf pre" "?c \<notin> idsOf post" "?c \<notin> cid ` set (concat (concat rs1))"
    "?c \<notin> cid ` set (concat (concat rs2))" "?c \<notin> cid ` set (concat cs1)"
    "?c \<notin> cid ` set (concat cs2)" "?c \<notin> cid ` set xs" "?c \<notin> cid ` set ys"
    using d by (auto simp: idsOf_def)
  have 1: "firstIndex (\<lambda>b. hasId ?c (blockContainers b)) ?p = Some (length pre)"
    by (rule firstIndex_append) (use hasId_absent_block[OF a(1)] in \<open>auto simp: hasId_iff\<close>)
  have 2: "firstIndex (\<lambda>row. hasId ?c (concat row)) ?rows = Some (length rs1)"
    by (rule firstIndex_append) (use a(3) in \<open>auto simp: hasId_iff\<close>)
  have 3: "firstIndex (hasId ?c) (cs1 @ (xs @ pg # ys) # cs2) = Some (length cs1)"
    by (rule firstIndex_append) (use a(5) in \<open>auto simp: hasId_iff\<close>)
  show "parentCell ?p ?c = Some (length pre, length rs1, length cs1)"
    by (simp add: parentCell_def 1 2 3)
  have "\<forall>b\<in>set ?p. \<not> (case b of Leaf x \<Rightarrow> cid x = ?c | Table rows \<Rightarrow> False)"
    using getChildIndex_absent_block[OF a(1)] getChildIndex_absent_block[OF a(2)] by auto
  then show "getChildIndex ?p ?c = None"
    unfolding getChildIndex_def by (rule firstIndex_None)
  show "removeFromParent ?c ?p = pre @ Table (rs1 @ (cs1 @ (xs @ ys) # cs2) # rs2) # post"
    using a by (simp add: removeFromParent_append removeFromParent_absent
        map_map_filter_absent map_filter_absent filter_absent)
qed

text \<open>
  The block at the end of the loop body, on a part whose elements are distinct objects:
  an element \<open>pg\<close> whose text is not empty stays, and so does everything else;
  an element whose text is empty is removed from its parent; when the parent is a
  table cell, the row of the cell is removed from the table when the text of every
  cell of the row is then empty, and stays, without the element, when some cell has
  text.
\<close>

lemma cleanup_cases:
  "(distinct (map cid (containers (pre @ Leaf pg # post))) \<longrightarrow>
      cleanup (cid pg) (pre @ Leaf pg # post) =
        Inr (if getText pg = [] then pre @ post else pre @ Leaf pg # post)) \<and>
   (distinct (map cid (containers (pre @ Table (rs1 @ (cs1 @ (xs @ pg # ys) # cs2) # rs2) # post))) \<longrightarrow>
      cleanup (cid pg) (pre @ Table (rs1 @ (cs1 @ (xs @ pg # ys) # cs2) # rs2) # post) =
        Inr (if getText pg \<noteq> [] then pre @ Table (rs1 @ (cs1 @ (xs @ pg # ys) # cs2) # rs2) # post
             else if list_all (\<lambda>cell. cellText cell = []) (cs1 @ (xs @ ys) # cs2)
                  then pre @ Table (rs1 @ rs2) # post
                  else pre @ Table (rs1 @ (cs1 @ (xs @ ys) # cs2) # rs2) # post))"
proof (intro conjI impI)
  assume d: "distinct (map cid (containers (pre @ Leaf pg # post)))"
  show "cleanup (cid pg) (pre @ Leaf pg # post) =
        Inr (if getText pg = [] then pre @ post else pre @ Leaf pg # post)"
    by (simp add: cleanup_def topLevel_facts[OF d])
next
  let ?row' = "cs1 @ (xs @ ys) # cs2"
  assume d: "distinct (map cid (containers (pre @ Table (rs1 @ (cs1 @ (xs @ pg # ys) # cs2) # rs2) # post)))"
  have nth: "(pre @ Table (rs1 @ ?row' # rs2) # post) ! length pre = Table (rs1 @ ?row' # rs2)"
    by simp
  have upd: "(pre @ Table (rs1 @ ?row' # rs2) # post)[length pre := Table (removeRow (length rs1) (rs1 @ ?row' # rs2))]
      = pre @ Table (rs1 @ rs2) # post"
    by (simp add: removeRow_def)
  show "cleanup (cid pg) (pre @ Table (rs1 @ (cs1 @ (xs @ pg # ys) # cs2) # rs2) # post) =
        Inr (if getText pg \<noteq> [] then pre @ Table (rs1 @ (cs1 @ (xs @ pg # ys) # cs2) # rs2) # post
             else if list_all (\<lambda>cell. cellText cell = []) ?row'
                  then pre @ Table (rs1 @ rs2) # post
                  else pre @ Table (rs1 @ ?row' # rs2) # post)"
    unfolding cleanup_def inCell_facts[OF d] option.case Let_def prod.case nth block.case upd
    by (simp add: allEmpty_iff)
qed

fun itemsFor :: "glyphType \<Rightarrow> nat \<Rightarrow> string list \<Rightarrow> container list" where
  "itemsFor g fresh [] = []"
| "itemsFor g fresh (l # ls) = \<lparr>cid = fresh, kind = LIST_ITEM g, getText = l\<rparr> # itemsFor g (Suc fresh) ls"

lemma insertItems_result:
  "index < length p \<Longrightarrow>
     insertItems p index g fresh ls =
       Inr (take (Suc index) p @ map Leaf (itemsFor g fresh ls) @ drop (Suc index) p)"
proof (induction ls arbitrary: p index fresh)
  case Nil
  then show ?case by simp
next
  case (Cons l ls)
  let ?item = "\<lparr>cid = fresh, kind = LIST_ITEM g, getText = l\<rparr>"
  let ?p' = "take (index + 1) p @ [Leaf ?item] @ drop (index + 1) p"
  have i: "insertListItem p (index + 1) ?item = Inr ?p'"
    using Cons.prems by (simp add: insertListItem_def)
  have l: "index + 1 < length ?p'" using Cons.prems by simp
  have t: "take (Suc (index + 1)) ?p' = take (Suc index) p @ [Leaf ?item]"
    using Cons.prems by (simp add: min_def)
  have d: "drop (Suc (index + 1)) ?p' = drop (Suc index) p"
    using Cons.prems by (simp add: min_def)
  show ?case
    unfolding insertItems.simps i andThen_def sum.case Cons.IH[OF l] t d by simp
qed

lemma upd_absent: "c \<notin> cid ` set xs \<Longrightarrow> map (upd c s) xs = xs"
  by (induction xs) (auto simp: upd_def)

lemma setText_absent: "c \<notin> idsOf p \<Longrightarrow> setText c s p = p"
proof (induction p)
  case Nil
  then show ?case by (simp add: setText_def)
next
  case (Cons b p)
  then have "setText c s p = p" by (cases b) auto
  moreover have "setTextBlock c s b = b"
  proof (cases b)
    case (Leaf x)
    with Cons.prems show ?thesis by (simp add: upd_def)
  next
    case (Table rows)
    have "\<forall>row\<in>set rows. \<forall>cell\<in>set row. map (upd c s) cell = cell"
      using Cons.prems Table by (auto intro!: upd_absent)
    then have "map (map (map (upd c s))) rows = rows"
      by (simp add: map_idI)
    with Table show ?thesis by simp
  qed
  ultimately show ?case by (simp add: setText_def)
qed

lemma setText_append: "setText c s (p @ q) = setText c s p @ setText c s q"
  by (simp add: setText_def)

lemma setText_Cons: "setText c s (b # p) = setTextBlock c s b # setText c s p"
  by (simp add: setText_def)

lemma find_app: "find P (xs @ ys) = (case find P xs of None \<Rightarrow> find P ys | Some x \<Rightarrow> Some x)"
  by (induction xs) auto

lemma fullSpan:
  assumes "spanOf p t = Some (getText el)" "getContainer p (element (tagRange t)) = Some el"
  shows "startOffset (tagRange t) = 0 \<and> Suc (endOffsetInclusive (tagRange t)) = length (getText el)"
  using spanOf_split[OF assms] by auto

lemma splitOn_nonempty: "splitOn P v \<noteq> []"
  by (cases v) (auto split: list.splits)

lemma replaceInPart_listItem:
  assumes d: "distinct (map cid (containers (pre @ Leaf el # post)))"
    and k: "kind el = LIST_ITEM g"
    and e: "element (tagRange t) = cid el"
    and w: "wellFormedTag t"
    and sp: "spanOf (pre @ Leaf el # post) t = Some (matchText t)"
    and full: "matchText t = getText el" "text1 t = []" "text2 t = []"
    and ls: "splitOn isNewline v = l # ls" and l: "l \<noteq> []"
  shows "replaceInPart (pre @ Leaf el # post) fresh t v =
           Inr (pre @ Leaf (el\<lparr>getText := l\<rparr>) # map Leaf (itemsFor g fresh ls) @ post)"
proof -
  let ?p = "pre @ Leaf el # post"
  let ?el' = "el\<lparr>getText := l\<rparr>"
  note tf = topLevel_facts[OF d]
  have g: "getContainer ?p (element (tagRange t)) = Some el" using tf(1) e by simp
  have n: "isNewItemsCase el t v" using k full ls
    by (simp add: isNewItemsCase_def isItem_def isFullRep_def)
  have sv: "shiftedValue el t v = l" using n ls by (simp add: shiftedValue_def)
  have rl: "remainingLines el t v = ls" using n ls by (simp add: remainingLines_def)
  from fullSpan[OF sp[unfolded full(1)] g]
  have off: "startOffset (tagRange t) = 0" "Suc (endOffsetInclusive (tagRange t)) = length (getText el)"
    by auto
  have ed: "editText el t v = Inr l"
    using editText_result[OF w sp g, of v] sv l off full by simp
  have st: "setText (cid el) l ?p = pre @ Leaf ?el' # post"
    using tf(2,3) by (simp add: setText_append setText_Cons setText_absent upd_def)
  have d': "distinct (map cid (containers (pre @ Leaf ?el' # post)))" using d by simp
  have gi: "getChildIndex (pre @ Leaf ?el' # post) (cid el) = Some (length pre)"
    using topLevel_facts(5)[OF d'] by simp
  have ins: "insertItems (pre @ Leaf ?el' # post) (length pre) g fresh ls =
      Inr (pre @ Leaf ?el' # map Leaf (itemsFor g fresh ls) @ post)"
    using insertItems_result[of "length pre" "pre @ Leaf ?el' # post" g fresh ls] by simp
  have ni: "newItems (pre @ Leaf ?el' # post) el fresh ls =
      Inr (pre @ Leaf ?el' # map Leaf (itemsFor g fresh ls) @ post)"
    by (simp add: newItems_def gi k ins)
  have "cid el \<notin> cid ` set (containers pre)" using tf(2) by (simp add: idsOf_def)
  then have "find (\<lambda>x. cid x = cid el) (containers pre) = None"
    unfolding find_None_iff by (metis imageI)
  then have gc: "getContainer (pre @ Leaf ?el' # map Leaf (itemsFor g fresh ls) @ post) (cid el) = Some ?el'"
    by (simp add: getContainer_def find_app)
  have cl: "cleanup (cid el) (pre @ Leaf ?el' # map Leaf (itemsFor g fresh ls) @ post) =
      Inr (pre @ Leaf ?el' # map Leaf (itemsFor g fresh ls) @ post)"
    using l by (simp add: cleanup_def gc)
  show ?thesis
    unfolding replaceInPart_def g option.case ed andThen_def sum.case if_P[OF n] rl st ni cl ..
qed

text \<open>
  A list item that is a child of its document part and whose whole text is the match,
  with no prefix and no suffix, and a value whose first line \<open>l\<close> is not empty (the
  first line of a trimmed value that is not empty): the loop body sets the text of the
  item to \<open>l\<close> and inserts one new list item for each remaining line right after the
  item, in the order of the lines, each with the glyph type of the item; the part has
  as many more children as there are remaining lines.
\<close>

lemma listItem_expansion:
  assumes "docPart t < length ps"
    and "ps ! docPart t = pre @ Leaf el # post"
    and "distinct (map cid (containers (ps ! docPart t)))"
    and "kind el = LIST_ITEM g"
    and "element (tagRange t) = cid el"
    and "wellFormedTag t"
    and "spanOf (ps ! docPart t) t = Some (matchText t)"
    and "matchText t = getText el" "text1 t = []" "text2 t = []"
    and "resolve fm t = Some v"
    and "splitOn isNewline v = l # ls" and "l \<noteq> []"
  shows "processTag fm ps t =
           Inr (ps[docPart t := pre @ Leaf (el\<lparr>getText := l\<rparr>) #
                                  map Leaf (itemsFor g (freshId ps) ls) @ post]) \<and>
         map getText (itemsFor g (freshId ps) ls) = ls \<and>
         list_all (\<lambda>x. kind x = LIST_ITEM g) (itemsFor g (freshId ps) ls) \<and>
         length (pre @ Leaf (el\<lparr>getText := l\<rparr>) # map Leaf (itemsFor g (freshId ps) ls) @ post) =
           length (ps ! docPart t) + length ls"
proof -
  have a: "at ps (docPart t) = Some (pre @ Leaf el # post)"
    using assms(1,2) by (simp add: at_def)
  have r: "replaceInPart (pre @ Leaf el # post) (freshId ps) t v =
           Inr (pre @ Leaf (el\<lparr>getText := l\<rparr>) # map Leaf (itemsFor g (freshId ps) ls) @ post)"
    by (rule replaceInPart_listItem[OF assms(3)[unfolded assms(2)] assms(4,5,6)
          assms(7)[unfolded assms(2)] assms(8,9,10,12,13)])
  have 1: "map getText (itemsFor g f ls) = ls" for f
    by (induction ls arbitrary: f) auto
  have 2: "list_all (\<lambda>x. kind x = LIST_ITEM g) (itemsFor g f ls)" for f
    by (induction ls arbitrary: f) auto
  have 3: "length (itemsFor g f ls) = length ls" for f
    by (induction ls arbitrary: f) auto
  show ?thesis
    using 1 2 3 assms(2) by (simp add: processTag_def assms(11) a r andThen_def)
qed

text \<open>
  A value of one line that is not empty: the list item takes it, and no item is
  inserted.
\<close>

lemma listItem_single_line:
  assumes "docPart t < length ps"
    and "ps ! docPart t = pre @ Leaf el # post"
    and "distinct (map cid (containers (ps ! docPart t)))"
    and "kind el = LIST_ITEM g"
    and "element (tagRange t) = cid el"
    and "wellFormedTag t"
    and "spanOf (ps ! docPart t) t = Some (matchText t)"
    and "matchText t = getText el" "text1 t = []" "text2 t = []"
    and "resolve fm t = Some v"
    and "list_all (\<lambda>c. \<not> isNewline c) v" and "v \<noteq> []"
  shows "processTag fm ps t = Inr (ps[docPart t := pre @ Leaf (el\<lparr>getText := v\<rparr>) # post])"
proof -
  have a: "at ps (docPart t) = Some (pre @ Leaf el # post)"
    using assms(1,2) by (simp add: at_def)
  have s: "splitOn isNewline v = v # []" using splitOn_all[OF assms(12)] by simp
  have r: "replaceInPart (pre @ Leaf el # post) (freshId ps) t v =
           Inr (pre @ Leaf (el\<lparr>getText := v\<rparr>) # map Leaf (itemsFor g (freshId ps) []) @ post)"
    by (rule replaceInPart_listItem[OF assms(3)[unfolded assms(2)] assms(4,5,6)
          assms(7)[unfolded assms(2)] assms(8,9,10) s assms(13)])
  show ?thesis
    by (simp add: processTag_def assms(11) a r andThen_def)
qed

subsection \<open>The order of the edits\<close>

lemma find_remove_middle:
  "find P (xs @ ys @ zs) = Some x \<Longrightarrow> x \<notin> set ys \<Longrightarrow> find P (xs @ zs) = Some x"
proof (cases "find P xs")
  case (Some y)
  then show "find P (xs @ ys @ zs) = Some x \<Longrightarrow> find P (xs @ zs) = Some x"
    by (simp add: find_app)
next
  case None
  assume a: "find P (xs @ ys @ zs) = Some x" and n: "x \<notin> set ys"
  show "find P (xs @ zs) = Some x"
  proof (cases "find P ys")
    case None
    with a \<open>find P xs = None\<close> show ?thesis by (simp add: find_app)
  next
    case (Some y)
    with a \<open>find P xs = None\<close> have "y = x" by (simp add: find_app)
    moreover from Some have "y \<in> set ys" by (auto simp: find_Some_iff)
    ultimately show ?thesis using n by simp
  qed
qed

lemma find_insert_middle:
  "\<forall>y\<in>set ys. \<not> P y \<Longrightarrow> find P (xs @ ys @ zs) = find P (xs @ zs)"
proof -
  assume "\<forall>y\<in>set ys. \<not> P y"
  then have "find P ys = None" by (simp add: find_None_iff)
  then show ?thesis by (simp add: find_app split: option.splits)
qed

lemma find_filter: "(\<And>x. P x \<Longrightarrow> Q x) \<Longrightarrow> find P (filter Q xs) = find P xs"
  by (induction xs) auto

lemma find_upd_other:
  "c' \<noteq> c \<Longrightarrow> find (\<lambda>x. cid x = c') (map (upd c s) xs) = find (\<lambda>x. cid x = c') xs"
  by (induction xs) (auto simp: upd_def)

lemma find_upd_same:
  "find (\<lambda>x. cid x = c) (map (upd c s) xs) =
     map_option (\<lambda>x. x\<lparr>getText := s\<rparr>) (find (\<lambda>x. cid x = c) xs)"
  by (induction xs) (auto simp: upd_def)

lemma containers_setText: "containers (setText c s p) = map (upd c s) (containers p)"
proof (induction p)
  case Nil
  then show ?case by (simp add: setText_def)
next
  case (Cons b p)
  have "blockContainers (setTextBlock c s b) = map (upd c s) (blockContainers b)"
    by (cases b) (simp_all add: map_concat)
  with Cons show ?case by (simp add: setText_Cons)
qed

lemma containers_removeFromParent:
  "containers (removeFromParent c p) = filter (\<lambda>x. cid x \<noteq> c) (containers p)"
proof -
  have "concat (concat (map (map (filter Q)) rows)) = filter Q (concat (concat rows))"
    for Q :: "container \<Rightarrow> bool" and rows
    by (induction rows) (simp_all add: filter_concat)
  then show ?thesis
    by (induction c p rule: removeFromParent.induct) simp_all
qed

lemma getContainer_setText_other:
  "c' \<noteq> c \<Longrightarrow> getContainer (setText c s p) c' = getContainer p c'"
  by (simp add: getContainer_def containers_setText find_upd_other)

lemma getContainer_setText_same:
  "getContainer p c = Some el \<Longrightarrow> getContainer (setText c s p) c = Some (el\<lparr>getText := s\<rparr>)"
  by (simp add: getContainer_def containers_setText find_upd_same)

lemma getContainer_removeFromParent:
  "c' \<noteq> c \<Longrightarrow> getContainer (removeFromParent c p) c' = getContainer p c'"
  unfolding getContainer_def containers_removeFromParent by (rule find_filter) simp

lemma joinLines_empty: "joinLines xs = [] \<Longrightarrow> \<forall>x\<in>set xs. x = []"
  by (induction xs rule: joinLines.induct) auto

lemma allEmpty_texts: "allEmpty row \<Longrightarrow> \<forall>x\<in>set (concat row). getText x = []"
proof (induction row)
  case Nil
  then show ?case by simp
next
  case (Cons cell row)
  then have "cellText cell = []" "allEmpty row" by (auto split: if_splits)
  with Cons.IH joinLines_empty[of "map getText cell"] show ?case
    by (auto simp: cellText_def)
qed

lemma getContainer_removeRow:
  assumes g: "getContainer p c' = Some x" and t: "getText x \<noteq> []"
    and i: "p ! i = Table rows" and e: "allEmpty (rows ! r)"
  shows "getContainer (p[i := Table (removeRow r rows)]) c' = Some x"
proof (cases "i < length p \<and> r < length rows")
  case False
  then consider "\<not> i < length p" | "i < length p" "\<not> r < length rows" by blast
  then show ?thesis
  proof cases
    case 1
    then show ?thesis using g by (simp add: list_update_beyond)
  next
    case 2
    then have "removeRow r rows = rows" by (simp add: removeRow_def)
    moreover have "p[i := Table rows] = p" using i by (metis list_update_id)
    ultimately show ?thesis using g by simp
  qed
next
  case True
  then have p: "p = take i p @ Table rows # drop (Suc i) p"
    using i by (metis id_take_nth_drop)
  have rows: "rows = take r rows @ (rows ! r) # drop (Suc r) rows"
    using True by (metis id_take_nth_drop)
  have u: "p[i := Table (removeRow r rows)] = take i p @ Table (removeRow r rows) # drop (Suc i) p"
    using True by (simp add: upd_conv_take_nth_drop)
  let ?A = "containers (take i p) @ concat (concat (take r rows))"
  let ?B = "concat (concat (drop (Suc r) rows)) @ containers (drop (Suc i) p)"
  have c1: "containers p = ?A @ concat (rows ! r) @ ?B"
    by (subst p, subst rows) simp
  have c2: "containers (p[i := Table (removeRow r rows)]) = ?A @ ?B"
    unfolding u by (simp add: removeRow_def)
  have "x \<notin> set (concat (rows ! r))" using allEmpty_texts[OF e] t by blast
  with g show ?thesis unfolding getContainer_def c1 c2 by (rule find_remove_middle)
qed

lemma getContainer_cleanup_other:
  assumes "cleanup c p = Inr p'" "getContainer p c' = Some x" "getText x \<noteq> []" "c' \<noteq> c"
  shows "getContainer p' c' = Some x"
proof -
  have r: "getContainer (removeFromParent c p) c' = Some x"
    using assms(2,4) by (simp add: getContainer_removeFromParent)
  show ?thesis
    using assms(1) r assms(2) getContainer_removeRow[OF r assms(3)]
    by (auto simp: cleanup_def Let_def split: option.splits if_splits prod.splits block.splits)
qed

lemma getContainer_cleanup_nonempty:
  "getContainer p c = Some x \<Longrightarrow> getText x \<noteq> [] \<Longrightarrow> cleanup c p = Inr p"
  by (simp add: cleanup_def)

lemma cid_itemsFor: "x \<in> set (itemsFor g f ls) \<Longrightarrow> f \<le> cid x"
proof (induction ls arbitrary: f)
  case Nil
  then show ?case by simp
next
  case (Cons l ls)
  then consider "cid x = f" | "x \<in> set (itemsFor g (Suc f) ls)" by auto
  then show ?case
  proof cases
    case 1
    then show ?thesis by simp
  next
    case 2
    from Cons.IH[OF this] show ?thesis by simp
  qed
qed

lemma getContainer_newItems:
  assumes n: "newItems p el fresh ls = Inr p'" and f: "\<forall>x\<in>set (containers p). cid x < fresh"
    and g: "getContainer p c' = Some x"
  shows "getContainer p' c' = Some x"
proof -
  from n obtain i gl where i: "getChildIndex p (cid el) = Some i" and k: "kind el = LIST_ITEM gl"
    and ins: "insertItems p i gl fresh ls = Inr p'"
    by (auto simp: newItems_def split: option.splits elementType.splits)
  have "i < length p"
  proof -
    have "firstIndex P xs = Some j \<Longrightarrow> j < length xs" for P and xs :: "block list" and j
      by (induction xs arbitrary: j) (auto split: if_splits)
    then show ?thesis using i by (auto simp: getChildIndex_def)
  qed
  from insertItems_result[OF this, of gl fresh ls] ins
  have p': "p' = take (Suc i) p @ map Leaf (itemsFor gl fresh ls) @ drop (Suc i) p" by simp
  have cm: "containers (map Leaf xs) = xs" for xs by (induction xs) auto
  have c': "containers p' = containers (take (Suc i) p) @ itemsFor gl fresh ls @ containers (drop (Suc i) p)"
    unfolding p' by (simp add: cm)
  have c: "containers p = containers (take (Suc i) p) @ containers (drop (Suc i) p)"
    by (metis append_take_drop_id containers_append)
  have "cid x = c'" "x \<in> set (containers p)"
    using g by (auto simp: getContainer_def find_Some_iff)
  then have "c' < fresh" using f by auto
  then have "\<forall>y\<in>set (itemsFor gl fresh ls). \<not> cid y = c'"
    using cid_itemsFor by fastforce
  from find_insert_middle[OF this] g show ?thesis
    unfolding getContainer_def c' by (simp add: c)
qed

definition rangeIntact :: "part list \<Rightarrow> tag \<Rightarrow> bool" where
  "rangeIntact ps u = (docPart u < length ps \<and> spanOf (ps ! docPart u) u = Some (matchText u))"

definition endsBefore :: "tag \<Rightarrow> tag \<Rightarrow> bool" where
  "endsBefore u t =
     (docPart u \<noteq> docPart t \<or> element (tagRange u) \<noteq> element (tagRange t) \<or>
      endOffsetInclusive (tagRange u) < startOffset (tagRange t))"

lemma findAllTags_spec:
  assumes "distinct (map cid (containers dp))"
  shows "\<exists>tags. findAllTags n dp = Inr tags \<and>
           (\<forall>t\<in>set tags. wellFormedTag t \<and> docPart t = n \<and> spanOf dp t = Some (matchText t)) \<and>
           sorted_wrt (precedes dp) tags"
proof -
  let ?ts = "map getText (containers dp)"
  let ?fs = "findAllRanges_loop ?ts (findText ?ts None) []"
  from findAllTags_scanned[OF assms, of n] obtain tags where
    t: "findAllTags n dp = Inr tags" and l: "list_all2 (scanned n dp) ?fs tags" by blast
  have s: "sorted_wrt before ?fs" and v: "list_all (validFound ?ts) ?fs"
    using findAllRanges_loop_spec by blast+
  have "sorted_wrt (precedes dp) tags"
  proof (rule sorted_wrt_list_all2[OF l s])
    fix x x' y y'
    assume x: "x \<in> set ?fs" "x' \<in> set ?fs" and b: "before x x'"
      and y: "scanned n dp x y" "scanned n dp x' y'"
    obtain k a b where r: "x = (k, a, b)" by (cases x)
    obtain k' a' b' where r': "x' = (k', a', b')" by (cases x')
    from x v r r' have kk: "k < length (containers dp)" "k' < length (containers dp)"
      by (auto simp: list_all_iff validFound_def)
    have p: "position dp (element (tagRange y)) = k" "position dp (element (tagRange y')) = k'"
      using y r r' position_distinct[OF assms] kk by (auto simp: scanned_def toRange_def)
    show "precedes dp y y'"
      using b y r r' unfolding precedes_def p by (auto simp: before_def scanned_def toRange_def)
  qed
  moreover have "\<forall>t\<in>set tags. wellFormedTag t \<and> docPart t = n \<and> spanOf dp t = Some (matchText t)"
  proof
    fix t assume "t \<in> set tags"
    with l obtain r where "scanned n dp r t"
      by (metis in_set_conv_nth list_all2_conv_all_nth)
    then show "wellFormedTag t \<and> docPart t = n \<and> spanOf dp t = Some (matchText t)"
      by (simp add: scanned_def)
  qed
  ultimately show ?thesis using t by blast
qed

lemma fold_max_ge: "x \<in> set xs \<Longrightarrow> (x::nat) \<le> fold max xs a"
proof (induction xs arbitrary: a)
  case Nil
  then show ?case by simp
next
  case (Cons y ys)
  have m: "b \<le> fold max ys b" for b :: nat
    by (induction ys arbitrary: b) (auto intro: order_trans[OF max.cobounded2])
  show ?case
  proof (cases "x = y")
    case True
    then show ?thesis using m[of "max y a"] by simp
  next
    case False
    with Cons show ?thesis by simp
  qed
qed

lemma freshId_gt: "p \<in> set ps \<Longrightarrow> x \<in> set (containers p) \<Longrightarrow> cid x < freshId ps"
proof -
  assume "p \<in> set ps" "x \<in> set (containers p)"
  then have "cid x \<in> set (map cid (concat (map containers ps)))" by auto
  from fold_max_ge[OF this] show ?thesis by (simp add: freshId_def less_Suc_eq_le)
qed

lemma replaceInPart_other:
  assumes r: "replaceInPart p fresh t v = Inr p'"
    and f: "\<forall>x\<in>set (containers p). cid x < fresh"
    and g: "getContainer p c' = Some x" and n: "getText x \<noteq> []"
    and c: "c' \<noteq> element (tagRange t)"
  shows "getContainer p' c' = Some x"
proof -
  from r obtain el s p2 where el: "getContainer p (element (tagRange t)) = Some el"
    and s: "editText el t v = Inr s"
    and p2: "(if isNewItemsCase el t v
              then newItems (setText (cid el) s p) el fresh (remainingLines el t v)
              else Inr (setText (cid el) s p)) = Inr p2"
    and cl: "cleanup (cid el) p2 = Inr p'"
    by (auto simp: replaceInPart_def andThen_def split: option.splits sum.splits)
  have ce: "cid el = element (tagRange t)"
    using el by (auto simp: getContainer_def find_Some_iff)
  have g1: "getContainer (setText (cid el) s p) c' = Some x"
    using g c ce by (simp add: getContainer_setText_other)
  have f1: "\<forall>x\<in>set (containers (setText (cid el) s p)). cid x < fresh"
    using f by (auto simp: containers_setText upd_def)
  have g2: "getContainer p2 c' = Some x"
    using p2 g1 getContainer_newItems[OF _ f1 g1] by (auto split: if_splits)
  show ?thesis
    using getContainer_cleanup_other[OF cl g2 n] c ce by simp
qed

lemma replaceInPart_same:
  assumes r: "replaceInPart p fresh t v = Inr p'"
    and f: "\<forall>x\<in>set (containers p). cid x < fresh"
    and w: "wellFormedTag t" and sp: "spanOf p t = Some (matchText t)"
    and el: "getContainer p (element (tagRange t)) = Some el"
    and n: "0 < n" "n \<le> startOffset (tagRange t)"
  shows "\<exists>el'. getContainer p' (element (tagRange t)) = Some el' \<and>
           take n (getText el') = take n (getText el) \<and> n \<le> length (getText el')"
proof -
  let ?s = "take (startOffset (tagRange t)) (getText el) @
                (if shiftedValue el t v = [] then []
                 else text1 t @ shiftedValue el t v @ text2 t) @
                drop (Suc (endOffsetInclusive (tagRange t))) (getText el)"
  let ?el' = "el\<lparr>getText := ?s\<rparr>"
  have ed: "editText el t v = Inr ?s" using editText_result[OF w sp el] by simp
  from r el ed obtain p2 where
    p2: "(if isNewItemsCase el t v
              then newItems (setText (cid el) ?s p) el fresh (remainingLines el t v)
              else Inr (setText (cid el) ?s p)) = Inr p2"
    and cl: "cleanup (cid el) p2 = Inr p'"
    by (auto simp: replaceInPart_def andThen_def split: sum.splits)
  have ce: "cid el = element (tagRange t)"
    using el by (auto simp: getContainer_def find_Some_iff)
  have g1: "getContainer (setText (cid el) ?s p) (cid el) = Some ?el'"
    using el ce by (simp add: getContainer_setText_same)
  have f1: "\<forall>x\<in>set (containers (setText (cid el) ?s p)). cid x < fresh"
    using f by (auto simp: containers_setText upd_def)
  have g2: "getContainer p2 (cid el) = Some ?el'"
    using p2 g1 getContainer_newItems[OF _ f1 g1] by (auto split: if_splits)
  from spanOf_split[OF sp el] have le: "startOffset (tagRange t) \<le> length (getText el)" by simp
  have len: "n \<le> length ?s" using n le by simp
  then have ne: "getText ?el' \<noteq> []" using n by auto
  have "p' = p2" using getContainer_cleanup_nonempty[OF g2 ne] cl by simp
  moreover have "take n ?s = take n (getText el)" using n le by (simp add: min_def)
  ultimately show ?thesis using g2 len ce by auto
qed

lemma processTag_keeps:
  assumes p: "processTag fm ps t = Inr ps'"
    and u: "rangeIntact ps u" "matchText u \<noteq> []" and b: "endsBefore u t"
    and t: "wellFormedTag t" "rangeIntact ps t"
  shows "rangeIntact ps' u"
proof (cases "resolve fm t")
  case None
  with p u show ?thesis by (simp add: processTag_def)
next
  case (Some v)
  let ?p = "ps ! docPart t"
  from t have dt: "docPart t < length ps" and st: "spanOf ?p t = Some (matchText t)"
    by (auto simp: rangeIntact_def)
  from p Some dt obtain p' where r: "replaceInPart ?p (freshId ps) t v = Inr p'"
    and ps': "ps' = ps[docPart t := p']"
    by (auto simp: processTag_def at_def andThen_def split: sum.splits)
  have f: "\<forall>x\<in>set (containers ?p). cid x < freshId ps"
    using freshId_gt[of ?p ps] dt by simp
  from u have du: "docPart u < length ps" and su: "spanOf (ps ! docPart u) u = Some (matchText u)"
    by (auto simp: rangeIntact_def)
  show ?thesis
  proof (cases "docPart u = docPart t")
    case False
    then show ?thesis using u ps' by (simp add: rangeIntact_def)
  next
    case True
    from su True obtain x where x: "getContainer ?p (element (tagRange u)) = Some x"
      by (auto simp: spanOf_def split: option.splits)
    from spanOf_split[OF su[unfolded True] x] u(2)
    have xs: "startOffset (tagRange u) \<le> endOffsetInclusive (tagRange u)"
      "endOffsetInclusive (tagRange u) < length (getText x)" by auto
    then have xn: "getText x \<noteq> []" by auto
    have "spanOf p' u = Some (matchText u)"
    proof (cases "element (tagRange u) = element (tagRange t)")
      case False
      from replaceInPart_other[OF r f x xn False] x su True show ?thesis
        by (simp add: spanOf_def)
    next
      case e: True
      with b True have lt: "endOffsetInclusive (tagRange u) < startOffset (tagRange t)"
        by (simp add: endsBefore_def)
      from replaceInPart_same[OF r f t(1) st x[unfolded e], of "Suc (endOffsetInclusive (tagRange u))"] lt
      obtain el' where el': "getContainer p' (element (tagRange t)) = Some el'"
        and tk: "take (Suc (endOffsetInclusive (tagRange u))) (getText el') =
                 take (Suc (endOffsetInclusive (tagRange u))) (getText x)"
        and ln: "Suc (endOffsetInclusive (tagRange u)) \<le> length (getText el')"
        by auto
      let ?s = "startOffset (tagRange u)" and ?e = "endOffsetInclusive (tagRange u)"
      have "take (Suc ?e - ?s) (drop ?s (getText el')) = drop ?s (take (Suc ?e) (getText el'))"
        by (simp add: drop_take)
      also have "\<dots> = drop ?s (take (Suc ?e) (getText x))" using tk by simp
      also have "\<dots> = take (Suc ?e - ?s) (drop ?s (getText x))" by (simp add: drop_take)
      finally have "take (Suc ?e - ?s) (drop ?s (getText el')) = take (Suc ?e - ?s) (drop ?s (getText x))" .
      then show ?thesis using el' e x su True xs ln by (simp add: spanOf_def)
    qed
    then show ?thesis using True dt ps' by (simp add: rangeIntact_def)
  qed
qed

definition docOrder :: "part list \<Rightarrow> tag \<Rightarrow> tag \<Rightarrow> bool" where
  "docOrder ps u t =
     (docPart u < docPart t \<or>
      (docPart u = docPart t \<and> precedes (ps ! docPart u) u t))"

definition wellFormedDocument :: "document \<Rightarrow> bool" where
  "wellFormedDocument d = list_all (\<lambda>p. distinct (map cid (containers p))) (getDocumentParts d)"

lemma precedes_endsBefore: "precedes dp u t \<Longrightarrow> endsBefore u t"
  by (auto simp: precedes_def endsBefore_def)

lemma docOrder_endsBefore: "docOrder ps u t \<Longrightarrow> endsBefore u t"
  using precedes_endsBefore by (auto simp: docOrder_def endsBefore_def)

lemma collectTags_spec:
  assumes "list_all (\<lambda>p. distinct (map cid (containers p))) ps"
  shows "\<exists>tags. collectTags n ps = Inr tags \<and>
           (\<forall>t\<in>set tags. wellFormedTag t \<and> n \<le> docPart t \<and> docPart t < n + length ps \<and>
                spanOf (ps ! (docPart t - n)) t = Some (matchText t)) \<and>
           sorted_wrt (\<lambda>u t. docPart u < docPart t \<or>
                (docPart u = docPart t \<and> precedes (ps ! (docPart u - n)) u t)) tags"
  using assms
proof (induction ps arbitrary: n)
  case Nil
  then show ?case by simp
next
  case (Cons p ps)
  then have d: "distinct (map cid (containers p))"
    and ds: "list_all (\<lambda>p. distinct (map cid (containers p))) ps" by auto
  from findAllTags_spec[OF d, of n] obtain arr where
    arr: "findAllTags n p = Inr arr"
    and a1: "\<forall>t\<in>set arr. wellFormedTag t \<and> docPart t = n \<and> spanOf p t = Some (matchText t)"
    and a2: "sorted_wrt (precedes p) arr" by blast
  from Cons.IH[OF ds, of "Suc n"] obtain tags where
    tags: "collectTags (Suc n) ps = Inr tags"
    and t1: "\<forall>t\<in>set tags. wellFormedTag t \<and> Suc n \<le> docPart t \<and> docPart t < Suc n + length ps \<and>
                spanOf (ps ! (docPart t - Suc n)) t = Some (matchText t)"
    and t2: "sorted_wrt (\<lambda>u t. docPart u < docPart t \<or>
                (docPart u = docPart t \<and> precedes (ps ! (docPart u - Suc n)) u t)) tags" by blast
  let ?R = "\<lambda>u t. docPart u < docPart t \<or>
                (docPart u = docPart t \<and> precedes ((p # ps) ! (docPart u - n)) u t)"
  have c: "collectTags n (p # ps) = Inr (arr @ tags)"
    by (simp add: arr tags andThen_def)
  have s1: "sorted_wrt ?R arr"
    using a1 by (intro sorted_wrt_mono_rel[OF _ a2]) auto
  have s2: "sorted_wrt ?R tags"
  proof (rule sorted_wrt_mono_rel[OF _ t2])
    fix u t assume "u \<in> set tags" "t \<in> set tags"
      and "docPart u < docPart t \<or> (docPart u = docPart t \<and> precedes (ps ! (docPart u - Suc n)) u t)"
    moreover from \<open>u \<in> set tags\<close> t1 have "Suc n \<le> docPart u" by blast
    then have "(p # ps) ! (docPart u - n) = ps ! (docPart u - Suc n)"
      by (simp add: Suc_diff_le)
    ultimately show "?R u t" by simp
  qed
  have s3: "\<forall>u\<in>set arr. \<forall>t\<in>set tags. ?R u t"
    using a1 t1 by fastforce
  have s: "sorted_wrt ?R (arr @ tags)"
    using s1 s2 s3 by (simp add: sorted_wrt_append)
  have m: "\<forall>t\<in>set (arr @ tags). wellFormedTag t \<and> n \<le> docPart t \<and> docPart t < n + length (p # ps) \<and>
                spanOf ((p # ps) ! (docPart t - n)) t = Some (matchText t)"
  proof
    fix t assume "t \<in> set (arr @ tags)"
    then consider "t \<in> set arr" | "t \<in> set tags" by auto
    then show "wellFormedTag t \<and> n \<le> docPart t \<and> docPart t < n + length (p # ps) \<and>
                spanOf ((p # ps) ! (docPart t - n)) t = Some (matchText t)"
    proof cases
      case 1
      with a1 show ?thesis by simp
    next
      case 2
      with t1 have *: "wellFormedTag t" "Suc n \<le> docPart t" "docPart t < Suc n + length ps"
        "spanOf (ps ! (docPart t - Suc n)) t = Some (matchText t)" by auto
      from *(2) have "(p # ps) ! (docPart t - n) = ps ! (docPart t - Suc n)"
        by (simp add: Suc_diff_le)
      with * show ?thesis by simp
    qed
  qed
  show ?case using c m s by blast
qed

lemma wellFormedTag_nonempty: "wellFormedTag t \<Longrightarrow> matchText t \<noteq> []"
  by (simp add: wellFormedTag_def tagConstruct_def)

lemma processTags_invariant:
  "sorted_wrt (\<lambda>t u. endsBefore u t) (ds @ rest) \<Longrightarrow>
   \<forall>u\<in>set (ds @ rest). wellFormedTag u \<and> rangeIntact ps u \<Longrightarrow>
   processTags fm ds ps = Inr ps' \<Longrightarrow>
   \<forall>u\<in>set rest. rangeIntact ps' u"
proof (induction ds arbitrary: ps)
  case Nil
  then show ?case by simp
next
  case (Cons d ds)
  from Cons.prems(3) obtain ps1 where p1: "processTag fm ps d = Inr ps1"
    and p2: "processTags fm ds ps1 = Inr ps'"
    by (auto simp: andThen_def split: sum.splits)
  have s: "sorted_wrt (\<lambda>t u. endsBefore u t) (ds @ rest)"
    and b: "\<forall>u\<in>set (ds @ rest). endsBefore u d"
    using Cons.prems(1) by auto
  have d: "wellFormedTag d" "rangeIntact ps d" using Cons.prems(2) by auto
  have "\<forall>u\<in>set (ds @ rest). wellFormedTag u \<and> rangeIntact ps1 u"
  proof
    fix u assume u: "u \<in> set (ds @ rest)"
    with Cons.prems(2) have w: "wellFormedTag u" "rangeIntact ps u" by auto
    from processTag_keeps[OF p1 w(2) wellFormedTag_nonempty[OF w(1)] _ d] b u
    show "wellFormedTag u \<and> rangeIntact ps1 u" using w(1) by blast
  qed
  from Cons.IH[OF s this p2] show ?case .
qed

text \<open>
  Claim C5. On a document whose elements are distinct objects, \<open>merge\<close> first
  collects the tags of all parts from the document as it is given, in the order of
  the parts and from left to right in each part, and then processes them in reverse
  order. Whenever the loop has processed the tags after \<open>t\<close> and reaches \<open>t\<close>, the
  range recorded for \<open>t\<close> and for every tag before it still holds its matched text
  in the document as it then is: no edit of a later tag has moved or changed it.
\<close>

theorem merge_ranges_intact:
  assumes "wellFormedDocument d"
  shows "\<exists>tags. collectTags 0 (getDocumentParts d) = Inr tags \<and>
           sorted_wrt (docOrder (getDocumentParts d)) tags \<and>
           merge d fm = processTags fm (rev tags) (getDocumentParts d) \<and>
           (\<forall>ds t todo ps.
              rev tags = ds @ t # todo \<and> processTags fm ds (getDocumentParts d) = Inr ps \<longrightarrow>
              list_all (rangeIntact ps) (t # todo))"
proof -
  let ?ps = "getDocumentParts d"
  have o: "docOrder ?ps = (\<lambda>u t. docPart u < docPart t \<or>
                (docPart u = docPart t \<and> precedes (?ps ! (docPart u - 0)) u t))"
    by (intro ext) (simp add: docOrder_def)
  from collectTags_spec[OF assms[unfolded wellFormedDocument_def], of 0] obtain tags where
    c: "collectTags 0 ?ps = Inr tags"
    and t: "\<forall>t\<in>set tags. wellFormedTag t \<and> docPart t < length ?ps \<and>
                spanOf (?ps ! docPart t) t = Some (matchText t)"
    and s: "sorted_wrt (docOrder ?ps) tags"
    unfolding o by auto
  have m: "merge d fm = processTags fm (rev tags) ?ps"
    by (simp add: merge_def c andThen_def)
  have e: "sorted_wrt (\<lambda>t u. endsBefore u t) (rev tags)"
    unfolding sorted_wrt_rev
    by (rule sorted_wrt_mono_rel[OF _ s]) (rule docOrder_endsBefore)
  have i: "\<forall>u\<in>set (rev tags). wellFormedTag u \<and> rangeIntact ?ps u"
    using t by (simp add: rangeIntact_def)
  have "\<forall>ds t todo ps.
              rev tags = ds @ t # todo \<and> processTags fm ds ?ps = Inr ps \<longrightarrow>
              list_all (rangeIntact ps) (t # todo)"
  proof (intro allI impI)
    fix ds t todo ps
    assume a: "rev tags = ds @ t # todo \<and> processTags fm ds ?ps = Inr ps"
    from processTags_invariant[OF e[unfolded a[THEN conjunct1]] i[unfolded a[THEN conjunct1]] a[THEN conjunct2]]
    show "list_all (rangeIntact ps) (t # todo)" by (simp add: list_all_iff)
  qed
  with c s m show ?thesis by blast
qed

subsection \<open>Constructs with an empty tag name\<close>

lemma filter_notAngle: "list_all notAngle xs \<Longrightarrow> filter isAngle xs = []"
  by (induction xs) (auto simp: notAngle_def isAngle_def)

lemma filter_tagConstruct:
  "list_all notAngle p \<Longrightarrow> list_all tagChar t \<Longrightarrow> list_all notAngle r \<Longrightarrow>
     filter isAngle (tagConstruct p t q r) = ''<<>>''"
  using filter_notAngle[OF tagChar_notAngle, of t]
  by (simp add: tagConstruct_def filter_notAngle) (simp add: isAngle_def)

lemma matchPattern_angles:
  assumes "matchPattern s = Some n"
  shows "filter isAngle (take n s) = ''<<>>'' \<and> (\<exists>r. s = CHR ''<'' # r)"
proof -
  from matchPattern_construct[OF assms] obtain p t q r where
    "take n s = tagConstruct p t q r" "list_all notAngle p" "list_all tagChar t" "list_all notAngle r"
    by blast
  then have "filter isAngle (take n s) = ''<<>>''" by (simp add: filter_tagConstruct)
  moreover from assms have "\<exists>r. s = CHR ''<'' # r"
    by (auto simp: matchPattern_def bind_eq_Some_conv expect_Some)
  ultimately show ?thesis by simp
qed

lemma emptyName_start:
  assumes "list_all notAngle p"
  shows "matchPattern (tagConstruct p [] q s @ rest) = None"
proof -
  have a: "dropWhile notAngle (p @ CHR ''<'' # x) = CHR ''<'' # x" for x
    using assms by (intro dropWhile_stop) (auto simp: notAngle_def)
  have b: "takeWhile tagChar ((if q then ''?'' else []) @ CHR ''>'' # x) = []" for x
    by (simp add: tagChar_def)
  show ?thesis
    by (simp add: matchPattern_def tagConstruct_def a b del: takeWhile.simps)
qed

lemma second_bracket_start:
  "matchPattern (CHR ''<'' # (if q then ''?'' else []) @ CHR ''>'' # rest) = None"
proof -
  have "dropWhile notAngle ((if q then ''?'' else []) @ CHR ''>'' # rest) = CHR ''>'' # rest"
    by (simp add: notAngle_def)
  then show ?thesis by (simp add: matchPattern_def)
qed

lemma only_bracket:
  assumes p: "list_all (\<lambda>c. c \<noteq> CHR ''<'') p" and r: "list_all (\<lambda>c. c \<noteq> CHR ''<'') R"
    and d: "drop j (p @ CHR ''<'' # R) = CHR ''<'' # y"
  shows "j = length p"
proof (rule ccontr)
  assume "j \<noteq> length p"
  then consider "j < length p" | "length p < j" by linarith
  then show False
  proof cases
    case 1
    then have "drop j (p @ CHR ''<'' # R) = (p ! j) # drop (Suc j) p @ CHR ''<'' # R"
      by (simp add: Cons_nth_drop_Suc)
    with d have "p ! j = CHR ''<''" by simp
    moreover have "p ! j \<noteq> CHR ''<''" using p 1 by (simp add: list_all_length)
    ultimately show False by simp
  next
    case 2
    then have "j - length p = Suc (j - Suc (length p))" by simp
    then have "drop j (p @ CHR ''<'' # R) = drop (j - Suc (length p)) R"
      using 2 by simp
    with d have "drop (j - Suc (length p)) R = CHR ''<'' # y" by simp
    then have "CHR ''<'' \<in> set (drop (j - Suc (length p)) R)" by simp
    then have "CHR ''<'' \<in> set R" by (rule in_set_dropD)
    with r show False unfolding list_all_iff by blast
  qed
qed

lemma angles_prefix:
  assumes "list_all notAngle p"
  shows "filter isAngle (take m (p @ CHR ''<'' # R)) = [] \<or>
         (\<exists>g. filter isAngle (take m (p @ CHR ''<'' # R)) = CHR ''<'' # g)"
proof (cases "m \<le> length p")
  case True
  then have "take m (p @ CHR ''<'' # R) = take m p" by simp
  moreover have "list_all notAngle (take m p)" using assms by (simp add: list_all_iff) (meson in_set_takeD)
  ultimately show ?thesis by (simp add: filter_notAngle)
next
  case False
  then obtain k where k: "m - length p = Suc k" by (cases "m - length p") auto
  have "take m (p @ CHR ''<'' # R) = p @ CHR ''<'' # take k R" using False k by simp
  then show ?thesis using assms by (simp add: filter_notAngle isAngle_def)
qed

lemma notAngle_noLt: "list_all notAngle p \<Longrightarrow> list_all (\<lambda>c. c \<noteq> CHR ''<'') p"
  by (induction p) (auto simp: notAngle_def)

lemma emptyName_not_matched:
  assumes p: "list_all notAngle p" and s: "list_all notAngle s"
    and m: "matchPattern (drop a (pre @ tagConstruct p [] q s @ post)) = Some n"
  shows "a + n \<le> length pre \<or> length pre + length (tagConstruct p [] q s) \<le> a"
proof (rule ccontr)
  let ?w = "tagConstruct p [] q s"
  let ?o = "if q then ''?'' else []"
  let ?R = "?o @ CHR ''>'' # s @ ''>''"
  assume "\<not> (a + n \<le> length pre \<or> length pre + length ?w \<le> a)"
  then have ov: "length pre < a + n" "a < length pre + length ?w" by auto
  have w: "?w = CHR ''<'' # p @ CHR ''<'' # ?R" by (simp add: tagConstruct_def)
  consider "a < length pre" | "a = length pre" | "length pre < a" by linarith
  then show False
  proof cases
    case 1
    define tl1 where "tl1 = p @ CHR ''<'' # ?R @ post"
    have wp: "?w @ post = CHR ''<'' # tl1" by (simp add: w tl1_def)
    from matchPattern_angles[OF m] obtain y where
      f: "filter isAngle (take n (drop a (pre @ ?w @ post))) = ''<<>>''"
      and h: "drop a (pre @ ?w @ post) = CHR ''<'' # y" by blast
    have d: "drop a (pre @ ?w @ post) = drop a pre @ CHR ''<'' # tl1"
      using 1 wp by simp
    from h d 1 obtain y' where dp: "drop a pre = CHR ''<'' # y'"
      by (cases "drop a pre") auto
    obtain j where j: "n - length (drop a pre) = Suc j"
      using ov(1) 1 by (cases "n - length (drop a pre)") auto
    have t: "take n (drop a pre @ CHR ''<'' # tl1) = drop a pre @ CHR ''<'' # take j tl1"
      using j by simp
    define G where "G = filter isAngle (take j tl1)"
    define F where "F = filter isAngle y'"
    have "filter isAngle (drop a pre @ CHR ''<'' # take j tl1) = CHR ''<'' # F @ CHR ''<'' # G"
      by (simp add: dp isAngle_def G_def F_def)
    with f[unfolded d t] have e: "F @ CHR ''<'' # G = ''<>>''" by simp
    have g: "G = [] \<or> (\<exists>g. G = CHR ''<'' # g)"
      unfolding G_def tl1_def by (rule angles_prefix[OF p])
    from e g show False
      by (auto simp: append_eq_Cons_conv)
  next
    case 2
    then have "drop a (pre @ ?w @ post) = ?w @ post" by simp
    with m emptyName_start[OF p, of q s post] show False by simp
  next
    case 3
    define tl2 where "tl2 = p @ CHR ''<'' # ?R"
    have wt: "?w = CHR ''<'' # tl2" by (simp add: w tl2_def)
    from 3 obtain j where j: "a - length pre = Suc j" by (cases "a - length pre") auto
    have jl: "j < length tl2" using ov(2) j 3 unfolding wt by simp
    have "drop a (pre @ ?w @ post) = drop (Suc j) (?w @ post)" using 3 j by simp
    also have "\<dots> = drop j (tl2 @ post)" unfolding wt by simp
    also have "\<dots> = drop j tl2 @ post" using jl by simp
    finally have d: "drop a (pre @ ?w @ post) = drop j tl2 @ post" .
    from matchPattern_angles[OF m] obtain y where
      h: "drop a (pre @ ?w @ post) = CHR ''<'' # y" by blast
    from jl have "drop j tl2 \<noteq> []" by simp
    then obtain y' where y': "drop j tl2 = CHR ''<'' # y'"
      using h d by (cases "drop j tl2") auto
    have "list_all (\<lambda>c. c \<noteq> CHR ''<'') ?R" using notAngle_noLt[OF s] by simp
    from only_bracket[OF notAngle_noLt[OF p] this y'[unfolded tl2_def]] have "j = length p" .
    then have "drop j tl2 = CHR ''<'' # ?R" by (simp add: tl2_def)
    then have "drop a (pre @ ?w @ post) = CHR ''<'' # ?o @ CHR ''>'' # (s @ ''>'' @ post)"
      using d by simp
    with m second_bracket_start[of q "s @ ''>'' @ post"] show False by simp
  qed
qed

lemma replaceInPart_text:
  assumes r: "replaceInPart p fresh t v = Inr p'"
    and f: "\<forall>x\<in>set (containers p). cid x < fresh"
    and w: "wellFormedTag t" and sp: "spanOf p t = Some (matchText t)"
    and el: "getContainer p (element (tagRange t)) = Some el"
    and s: "s = take (startOffset (tagRange t)) (getText el) @
                (if shiftedValue el t v = [] then []
                 else text1 t @ shiftedValue el t v @ text2 t) @
                drop (Suc (endOffsetInclusive (tagRange t))) (getText el)"
    and ne: "s \<noteq> []"
  shows "getContainer p' (element (tagRange t)) = Some (el\<lparr>getText := s\<rparr>)"
proof -
  let ?el' = "el\<lparr>getText := s\<rparr>"
  have ed: "editText el t v = Inr s" using editText_result[OF w sp el] s by simp
  from r el ed obtain p2 where
    p2: "(if isNewItemsCase el t v
              then newItems (setText (cid el) s p) el fresh (remainingLines el t v)
              else Inr (setText (cid el) s p)) = Inr p2"
    and cl: "cleanup (cid el) p2 = Inr p'"
    by (auto simp: replaceInPart_def andThen_def split: sum.splits)
  have ce: "cid el = element (tagRange t)"
    using el by (auto simp: getContainer_def find_Some_iff)
  have g1: "getContainer (setText (cid el) s p) (cid el) = Some ?el'"
    using el ce by (simp add: getContainer_setText_same)
  have f1: "\<forall>x\<in>set (containers (setText (cid el) s p)). cid x < fresh"
    using f by (auto simp: containers_setText upd_def)
  have g2: "getContainer p2 (cid el) = Some ?el'"
    using p2 g1 getContainer_newItems[OF _ f1 g1] by (auto split: if_splits)
  have "getText ?el' \<noteq> []" using ne by simp
  from getContainer_cleanup_nonempty[OF g2 this] cl have "p' = p2" by simp
  with g2 ce show ?thesis by simp
qed

text \<open>
  The text \<open>w\<close> stays where no tag of the element reaches: the tags still to be
  processed end before it or start after it.
\<close>

definition framed :: "part list \<Rightarrow> nat \<Rightarrow> nat \<Rightarrow> string \<Rightarrow> tag list \<Rightarrow> bool" where
  "framed ps n c w pending =
     (\<exists>x P Q. n < length ps \<and> getContainer (ps ! n) c = Some x \<and> getText x = P @ w @ Q \<and>
        (\<forall>u\<in>set pending. docPart u = n \<and> element (tagRange u) = c \<longrightarrow>
           endOffsetInclusive (tagRange u) < length P \<or>
           length P + length w \<le> startOffset (tagRange u)))"

lemma processTag_framed:
  assumes p: "processTag fm ps t = Inr ps'"
    and fr: "framed ps n c w (t # rest)" and w: "w \<noteq> []"
    and t: "wellFormedTag t" "rangeIntact ps t"
    and b: "\<forall>u\<in>set rest. endsBefore u t"
  shows "framed ps' n c w rest"
proof -
  from fr obtain x P Q where n: "n < length ps" and x: "getContainer (ps ! n) c = Some x"
    and tx: "getText x = P @ w @ Q"
    and pend: "\<forall>u\<in>set (t # rest). docPart u = n \<and> element (tagRange u) = c \<longrightarrow>
           endOffsetInclusive (tagRange u) < length P \<or>
           length P + length w \<le> startOffset (tagRange u)"
    by (auto simp: framed_def)
  have keep: "framed ps n c w rest" using n x tx pend by (auto simp: framed_def)
  show ?thesis
  proof (cases "resolve fm t")
    case None
    with p keep show ?thesis by (simp add: processTag_def)
  next
    case (Some v)
    let ?p = "ps ! docPart t"
    from t have dt: "docPart t < length ps" and st: "spanOf ?p t = Some (matchText t)"
      by (auto simp: rangeIntact_def)
    from p Some dt obtain p' where r: "replaceInPart ?p (freshId ps) t v = Inr p'"
      and ps': "ps' = ps[docPart t := p']"
      by (auto simp: processTag_def at_def andThen_def split: sum.splits)
    have f: "\<forall>x\<in>set (containers ?p). cid x < freshId ps"
      using freshId_gt[of ?p ps] dt by simp
    have xn: "getText x \<noteq> []" using tx w by simp
    show ?thesis
    proof (cases "docPart t = n")
      case False
      then have "ps' ! n = ps ! n" using ps' by simp
      then show ?thesis using n x tx pend ps' by (auto simp: framed_def)
    next
      case dn: True
      show ?thesis
      proof (cases "element (tagRange t) = c")
        case False
        from replaceInPart_other[OF r f x[folded dn] xn] False
        have "getContainer p' c = Some x" by simp
        then show ?thesis using n x tx pend ps' dn by (auto simp: framed_def)
      next
        case ec: True
        let ?s = "startOffset (tagRange t)" and ?e = "endOffsetInclusive (tagRange t)"
        let ?X = "if shiftedValue x t v = [] then [] else text1 t @ shiftedValue x t v @ text2 t"
        let ?s' = "take ?s (getText x) @ ?X @ drop (Suc ?e) (getText x)"
        have xe: "getContainer ?p (element (tagRange t)) = Some x" using x dn ec by simp
        from spanOf_split[OF st xe] have se: "?s \<le> ?e" "?e < length (getText x)" by auto
        from pend dn ec consider "?e < length P" | "length P + length w \<le> ?s" by auto
        then show ?thesis
        proof cases
          case 1
          let ?P' = "take ?s P @ ?X @ drop (Suc ?e) P"
          have s': "?s' = ?P' @ w @ Q" using 1 se tx by simp
          then have ne: "?s' \<noteq> []" using w by simp
          from replaceInPart_text[OF r f t(1) st xe refl ne]
          have g: "getContainer p' c = Some (x\<lparr>getText := ?s'\<rparr>)" using ec by simp
          have "\<forall>u\<in>set rest. docPart u = n \<and> element (tagRange u) = c \<longrightarrow>
                  endOffsetInclusive (tagRange u) < length ?P'"
          proof (intro ballI impI)
            fix u assume "u \<in> set rest" and "docPart u = n \<and> element (tagRange u) = c"
            with b dn ec have "endOffsetInclusive (tagRange u) < ?s" by (auto simp: endsBefore_def)
            moreover have "?s \<le> length P" using 1 se by simp
            ultimately show "endOffsetInclusive (tagRange u) < length ?P'" by simp
          qed
          then show ?thesis
            unfolding framed_def using n g s' ps' dn
            by (intro exI[of _ "x\<lparr>getText := ?s'\<rparr>"] exI[of _ ?P'] exI[of _ Q]) auto
        next
          case 2
          let ?Q' = "take (?s - length P - length w) Q @ ?X @ drop (Suc ?e) (getText x)"
          have "take ?s (getText x) = P @ w @ take (?s - length P - length w) Q"
            using 2 tx by simp
          then have s': "?s' = P @ w @ ?Q'" by simp
          then have ne: "?s' \<noteq> []" using w by simp
          from replaceInPart_text[OF r f t(1) st xe refl ne]
          have g: "getContainer p' c = Some (x\<lparr>getText := ?s'\<rparr>)" using ec by simp
          show ?thesis
            unfolding framed_def using n g s' ps' dn pend
            by (intro exI[of _ "x\<lparr>getText := ?s'\<rparr>"] exI[of _ P] exI[of _ ?Q']) auto
        qed
      qed
    qed
  qed
qed

lemma processTags_framed:
  "sorted_wrt (\<lambda>t u. endsBefore u t) ds \<Longrightarrow>
   \<forall>u\<in>set ds. wellFormedTag u \<and> rangeIntact ps u \<Longrightarrow>
   framed ps n c w ds \<Longrightarrow> w \<noteq> [] \<Longrightarrow>
   processTags fm ds ps = Inr ps' \<Longrightarrow>
   framed ps' n c w []"
proof (induction ds arbitrary: ps)
  case Nil
  then show ?case by simp
next
  case (Cons d ds)
  from Cons.prems(5) obtain ps1 where p1: "processTag fm ps d = Inr ps1"
    and p2: "processTags fm ds ps1 = Inr ps'"
    by (auto simp: andThen_def split: sum.splits)
  have s: "sorted_wrt (\<lambda>t u. endsBefore u t) ds" and b: "\<forall>u\<in>set ds. endsBefore u d"
    using Cons.prems(1) by auto
  have d: "wellFormedTag d" "rangeIntact ps d" using Cons.prems(2) by auto
  have i: "\<forall>u\<in>set ds. wellFormedTag u \<and> rangeIntact ps1 u"
  proof
    fix u assume u: "u \<in> set ds"
    with Cons.prems(2) have w: "wellFormedTag u" "rangeIntact ps u" by auto
    from processTag_keeps[OF p1 w(2) wellFormedTag_nonempty[OF w(1)] _ d] b u
    show "wellFormedTag u \<and> rangeIntact ps1 u" using w(1) by blast
  qed
  have f: "framed ps1 n c w ds"
    by (rule processTag_framed[OF p1 Cons.prems(3,4) d b])
  from Cons.IH[OF s i f Cons.prems(4) p2] show ?case .
qed

lemma spanOf_matchPattern:
  assumes w: "wellFormedTag t" and sp: "spanOf p t = Some (matchText t)"
    and g: "getContainer p (element (tagRange t)) = Some x"
  shows "matchPattern (drop (startOffset (tagRange t)) (getText x)) =
           Some (Suc (endOffsetInclusive (tagRange t)) - startOffset (tagRange t))"
proof -
  let ?s = "startOffset (tagRange t)" and ?e = "endOffsetInclusive (tagRange t)"
  let ?c = "tagConstruct (text1 t) (tagName t) (opt t) (text2 t)"
  from w have m: "matchText t = ?c" and wf: "list_all notAngle (text1 t)" "tagName t \<noteq> []"
    "list_all tagChar (tagName t)" "list_all notAngle (text2 t)"
    by (auto simp: wellFormedTag_def)
  from spanOf_split[OF sp g] m have
    x: "getText x = take ?s (getText x) @ ?c @ drop (Suc ?e) (getText x)" and se: "?s \<le> ?e" "?e < length (getText x)"
    and len: "length ?c = Suc ?e - ?s" by auto
  have "drop ?s (getText x) = drop ?s (take ?s (getText x) @ ?c @ drop (Suc ?e) (getText x))"
    using x by simp
  also have "\<dots> = ?c @ drop (Suc ?e) (getText x)" using se by simp
  finally have "drop ?s (getText x) = ?c @ drop (Suc ?e) (getText x)" .
  with matchPattern_tagConstruct[OF wf, of "opt t" "drop (Suc ?e) (getText x)"] len
  show ?thesis by simp
qed

text \<open>
  Claim C9. A construct with an empty tag name, \<open><p<>s>\<close> or \<open><p<?>s>\<close> with
  \<open>p\<close> and \<open>s\<close> free of angle brackets, anywhere in the text of an element of a
  document whose elements are distinct objects: the pattern does not match at its
  start; every tag that the scanner returns has a name that is not empty, and no tag
  of the element overlaps the construct; after \<open>merge\<close> the element is still in
  its part and its text still holds the construct.
\<close>

theorem emptyName_left_alone:
  assumes wf: "wellFormedDocument d" and n: "n < length (getDocumentParts d)"
    and x: "getContainer (getDocumentParts d ! n) c = Some x"
    and tx: "getText x = pre @ tagConstruct p [] q s @ post"
    and p: "list_all notAngle p" and s: "list_all notAngle s"
  shows "matchPattern (tagConstruct p [] q s @ post) = None \<and>
         (\<exists>tags. collectTags 0 (getDocumentParts d) = Inr tags \<and>
            (\<forall>t\<in>set tags. tagName t \<noteq> [] \<and>
               (docPart t = n \<and> element (tagRange t) = c \<longrightarrow>
                  endOffsetInclusive (tagRange t) < length pre \<or>
                  length pre + length (tagConstruct p [] q s) \<le> startOffset (tagRange t)))) \<and>
         (\<forall>ps'. merge d fm = Inr ps' \<longrightarrow>
            (\<exists>x' P Q. getContainer (ps' ! n) c = Some x' \<and>
               getText x' = P @ tagConstruct p [] q s @ Q))"
proof -
  let ?ps = "getDocumentParts d"
  let ?w = "tagConstruct p [] q s"
  from collectTags_spec[OF wf[unfolded wellFormedDocument_def], of 0] obtain tags where
    c: "collectTags 0 ?ps = Inr tags"
    and t: "\<forall>t\<in>set tags. wellFormedTag t \<and> docPart t < length ?ps \<and>
                spanOf (?ps ! docPart t) t = Some (matchText t)"
    and so: "sorted_wrt (\<lambda>u t. docPart u < docPart t \<or>
                (docPart u = docPart t \<and> precedes (?ps ! (docPart u - 0)) u t)) tags"
    by auto
  have apart: "endOffsetInclusive (tagRange t) < length pre \<or>
                  length pre + length ?w \<le> startOffset (tagRange t)"
    if "t \<in> set tags" "docPart t = n" "element (tagRange t) = c" for t
  proof -
    from that t have w: "wellFormedTag t" and sp: "spanOf (?ps ! n) t = Some (matchText t)" by auto
    have g: "getContainer (?ps ! n) (element (tagRange t)) = Some x" using x that by simp
    from spanOf_matchPattern[OF w sp g]
    have "matchPattern (drop (startOffset (tagRange t)) (pre @ ?w @ post)) =
           Some (Suc (endOffsetInclusive (tagRange t)) - startOffset (tagRange t))"
      using tx by simp
    from emptyName_not_matched[OF p s this] spanOf_split[OF sp g]
    show ?thesis by auto
  qed
  have 1: "matchPattern (?w @ post) = None" by (rule emptyName_start[OF p])
  have 2: "\<forall>t\<in>set tags. tagName t \<noteq> [] \<and>
               (docPart t = n \<and> element (tagRange t) = c \<longrightarrow>
                  endOffsetInclusive (tagRange t) < length pre \<or>
                  length pre + length ?w \<le> startOffset (tagRange t))"
    using t apart by (auto simp: wellFormedTag_def)
  have m: "merge d fm = processTags fm (rev tags) ?ps"
    by (simp add: merge_def c andThen_def)
  have e: "sorted_wrt (\<lambda>t u. endsBefore u t) (rev tags)"
    unfolding sorted_wrt_rev
    by (rule sorted_wrt_mono_rel[OF _ so]) (auto simp: endsBefore_def precedes_def)
  have i: "\<forall>u\<in>set (rev tags). wellFormedTag u \<and> rangeIntact ?ps u"
    using t by (simp add: rangeIntact_def)
  have f: "framed ?ps n c ?w (rev tags)"
    unfolding framed_def using n x tx apart
    by (intro exI[of _ x] exI[of _ pre] exI[of _ post]) auto
  have wn: "?w \<noteq> []" by (simp add: tagConstruct_def)
  have 3: "\<exists>x' P Q. getContainer (ps' ! n) c = Some x' \<and> getText x' = P @ ?w @ Q"
    if "merge d fm = Inr ps'" for ps'
  proof -
    from that m have "processTags fm (rev tags) ?ps = Inr ps'" by simp
    from processTags_framed[OF e i f wn this] show ?thesis by (auto simp: framed_def)
  qed
  from 1 2 3 c show ?thesis by blast
qed

subsection \<open>A second run\<close>

text \<open>
  A text made of characters other than angle brackets and of tags that \<open>merge\<close>
  skips: tags that are not optional and whose name is not in the field map.
\<close>

inductive residue :: "(string \<rightharpoonup> string) \<Rightarrow> string \<Rightarrow> bool" for fm where
  Empty: "residue fm []"
| Plain: "notAngle c \<Longrightarrow> residue fm s \<Longrightarrow> residue fm (c # s)"
| Skipped: "list_all notAngle p \<Longrightarrow> t \<noteq> [] \<Longrightarrow> list_all tagChar t \<Longrightarrow> list_all notAngle r \<Longrightarrow>
            fm t = None \<Longrightarrow> residue fm s \<Longrightarrow> residue fm (tagConstruct p t False r @ s)"

lemma residue_plain: "list_all notAngle xs \<Longrightarrow> residue fm s \<Longrightarrow> residue fm (xs @ s)"
  by (induction xs) (auto intro: residue.Plain)

lemma matchPattern_plain_start: "notAngle c \<Longrightarrow> matchPattern (c # s) = None"
  by (simp add: matchPattern_def notAngle_def)

lemma second_bracket_named:
  assumes "list_all tagChar t"
  shows "matchPattern (CHR ''<'' # t @ CHR ''>'' # rest) = None"
proof -
  have "dropWhile notAngle (t @ CHR ''>'' # rest) = CHR ''>'' # rest"
    using tagChar_notAngle[OF assms] by (intro dropWhile_stop) (auto simp: notAngle_def)
  then show ?thesis by (simp add: matchPattern_def)
qed

lemma tagChar_noLt: "list_all tagChar p \<Longrightarrow> list_all (\<lambda>c. c \<noteq> CHR ''<'') p"
  by (induction p) (auto simp: tagChar_def)

lemma residue_settled:
  "residue fm s \<Longrightarrow> matchPattern (drop a s) = Some n \<Longrightarrow>
     \<exists>p t r. take n (drop a s) = tagConstruct p t False r \<and> list_all notAngle p \<and> t \<noteq> [] \<and>
         list_all tagChar t \<and> list_all notAngle r \<and> fm t = None"
proof (induction arbitrary: a rule: residue.induct)
  case Empty
  then show ?case by (simp add: matchPattern_def)
next
  case (Plain c s)
  show ?case
  proof (cases a)
    case 0
    with Plain.prems matchPattern_plain_start[OF Plain.hyps(1)] show ?thesis by simp
  next
    case (Suc a')
    with Plain.prems have "matchPattern (drop a' s) = Some n" by simp
    from Plain.IH[OF this] Suc show ?thesis by simp
  qed
next
  case (Skipped p t r s)
  let ?w = "tagConstruct p t False r"
  let ?R = "t @ CHR ''>'' # r @ ''>''"
  have w: "?w = CHR ''<'' # p @ CHR ''<'' # ?R" by (simp add: tagConstruct_def)
  consider "a = 0" | "0 < a" "a < length ?w" | "length ?w \<le> a" by linarith
  then show ?case
  proof cases
    case 1
    from matchPattern_tagConstruct[OF Skipped.hyps(1-4), of False s] Skipped.prems 1
    have "n = length ?w" by simp
    then have "take n (drop a (?w @ s)) = ?w" using 1 by simp
    with Skipped.hyps show ?thesis by blast
  next
    case 2
    define tl2 where "tl2 = p @ CHR ''<'' # ?R"
    have wt: "?w = CHR ''<'' # tl2" by (simp add: w tl2_def)
    from 2 obtain j where j: "a = Suc j" by (cases a) auto
    have jl: "j < length tl2" using 2 j unfolding wt by simp
    have "drop a (?w @ s) = drop j (tl2 @ s)" unfolding wt j by simp
    also have "\<dots> = drop j tl2 @ s" using jl by simp
    finally have d: "drop a (?w @ s) = drop j tl2 @ s" .
    from matchPattern_angles[OF Skipped.prems] obtain y where
      h: "drop a (?w @ s) = CHR ''<'' # y" by blast
    from jl have "drop j tl2 \<noteq> []" by simp
    then obtain y' where y': "drop j tl2 = CHR ''<'' # y'"
      using h d by (cases "drop j tl2") auto
    have "list_all (\<lambda>c. c \<noteq> CHR ''<'') ?R"
      using notAngle_noLt[OF Skipped.hyps(4)] tagChar_noLt[OF Skipped.hyps(3)] by simp
    from only_bracket[OF notAngle_noLt[OF Skipped.hyps(1)] this y'[unfolded tl2_def]]
    have "j = length p" .
    then have "drop j tl2 = CHR ''<'' # ?R" by (simp add: tl2_def)
    then have "drop a (?w @ s) = CHR ''<'' # t @ CHR ''>'' # (r @ ''>'' @ s)"
      using d by simp
    with Skipped.prems second_bracket_named[OF Skipped.hyps(3), of "r @ ''>'' @ s"]
    show ?thesis by simp
  next
    case 3
    then have "drop a (?w @ s) = drop (a - length ?w) s" by simp
    with Skipped.prems have "matchPattern (drop (a - length ?w) s) = Some n" by simp
    from Skipped.IH[OF this] 3 show ?thesis by simp
  qed
qed

lemma splitOn_lines: "list_all P v \<Longrightarrow> l \<in> set (splitOn Q v) \<Longrightarrow> list_all P l"
proof (induction v arbitrary: l)
  case Nil
  then show ?case by simp
next
  case (Cons c v)
  show ?case
  proof (cases "Q c")
    case True
    with Cons show ?thesis by auto
  next
    case False
    obtain x xs where s: "splitOn Q v = x # xs"
      using splitOn_nonempty[of Q v] by (cases "splitOn Q v") auto
    with False Cons.prems have "l = c # x \<or> l \<in> set xs" by auto
    then show ?thesis
    proof
      assume "l = c # x"
      moreover have "list_all P x" using Cons.IH[of x] Cons.prems(1) s by simp
      ultimately show ?thesis using Cons.prems(1) by simp
    next
      assume "l \<in> set xs"
      then show ?thesis using Cons.IH[of l] Cons.prems(1) s by simp
    qed
  qed
qed

text \<open>A tag construct has one decomposition.\<close>

lemma tagConstruct_name:
  assumes e: "tagConstruct p t q r = tagConstruct p' t' q' r'"
    and p: "list_all notAngle p" "list_all notAngle p'"
    and t: "list_all tagChar t" "list_all tagChar t'"
  shows "t = t' \<and> q = q'"
proof -
  let ?o = "if q then ''?'' else []" and ?o' = "if q' then ''?'' else []"
  from e have 1: "p @ CHR ''<'' # t @ ?o @ CHR ''>'' # r @ ''>'' = p' @ CHR ''<'' # t' @ ?o' @ CHR ''>'' # r' @ ''>''"
    by (simp add: tagConstruct_def)
  have "takeWhile notAngle (p @ CHR ''<'' # x) = p" for x
    using p(1) by (intro takeWhile_stop) (auto simp: notAngle_def)
  moreover have "takeWhile notAngle (p' @ CHR ''<'' # x) = p'" for x
    using p(2) by (intro takeWhile_stop) (auto simp: notAngle_def)
  ultimately have pp: "p = p'" using 1 by metis
  with 1 have 2: "t @ ?o @ CHR ''>'' # r @ ''>'' = t' @ ?o' @ CHR ''>'' # r' @ ''>''" by simp
  have a: "takeWhile tagChar (t @ ?o @ CHR ''>'' # x) = t" for x
    using takeWhile_stop[OF t(1), of "if q then CHR ''?'' else CHR ''>''"]
    by (cases q) (auto simp: tagChar_def)
  have b: "takeWhile tagChar (t' @ ?o' @ CHR ''>'' # x) = t'" for x
    using takeWhile_stop[OF t(2), of "if q' then CHR ''?'' else CHR ''>''"]
    by (cases q') (auto simp: tagChar_def)
  from a b 2 have tt: "t = t'" by metis
  with 2 have "?o @ CHR ''>'' # r @ ''>'' = ?o' @ CHR ''>'' # r' @ ''>''" by simp
  then have "q = q'" by (cases q; cases q') auto
  with tt show ?thesis by simp
qed

lemma containers_removeRow:
  assumes "p ! i = Table rows"
  shows "\<exists>A M B. containers p = A @ M @ B \<and> containers (p[i := Table (removeRow r rows)]) = A @ B \<and>
           (M \<noteq> [] \<longrightarrow> r < length rows \<and> M = concat (rows ! r))"
proof (cases "i < length p \<and> r < length rows")
  case False
  then consider "\<not> i < length p" | "i < length p" "\<not> r < length rows" by blast
  then have "p[i := Table (removeRow r rows)] = p"
  proof cases
    case 1
    then show ?thesis by (simp add: list_update_beyond)
  next
    case 2
    then have "removeRow r rows = rows" by (simp add: removeRow_def)
    then show ?thesis using assms by (metis list_update_id)
  qed
  then show ?thesis by (intro exI[of _ "containers p"] exI[of _ "[]"]) simp
next
  case True
  then have p: "p = take i p @ Table rows # drop (Suc i) p"
    using assms by (metis id_take_nth_drop)
  have rows: "rows = take r rows @ (rows ! r) # drop (Suc r) rows"
    using True by (metis id_take_nth_drop)
  have u: "p[i := Table (removeRow r rows)] = take i p @ Table (removeRow r rows) # drop (Suc i) p"
    using True by (simp add: upd_conv_take_nth_drop)
  let ?A = "containers (take i p) @ concat (concat (take r rows))"
  let ?B = "concat (concat (drop (Suc r) rows)) @ containers (drop (Suc i) p)"
  have c1: "containers p = ?A @ concat (rows ! r) @ ?B"
    by (subst p, subst rows) simp
  have c2: "containers (p[i := Table (removeRow r rows)]) = ?A @ ?B"
    unfolding u by (simp add: removeRow_def)
  show ?thesis using c1 c2 True by blast
qed

lemma cleanup_containers:
  assumes "cleanup c p = Inr p'"
  shows "set (containers p') \<subseteq> set (containers p) \<and>
         (distinct (map cid (containers p)) \<longrightarrow> distinct (map cid (containers p')))"
proof -
  let ?p1 = "removeFromParent c p"
  have f: "set (containers ?p1) \<subseteq> set (containers p) \<and>
         (distinct (map cid (containers p)) \<longrightarrow> distinct (map cid (containers ?p1)))"
    by (auto simp: containers_removeFromParent distinct_map_filter)
  have r: "set (containers (?p1[i := Table (removeRow r rows)])) \<subseteq> set (containers p) \<and>
         (distinct (map cid (containers p)) \<longrightarrow>
            distinct (map cid (containers (?p1[i := Table (removeRow r rows)]))))"
    if "?p1 ! i = Table rows" for i r rows
  proof -
    from containers_removeRow[OF that, of r] obtain A M B where
      "containers ?p1 = A @ M @ B" "containers (?p1[i := Table (removeRow r rows)]) = A @ B"
      by blast
    with f show ?thesis by auto
  qed
  show ?thesis
    using assms f r
    by (auto simp: cleanup_def Let_def split: option.splits if_splits prod.splits block.splits)
qed

lemma firstIndex_less: "firstIndex P xs = Some j \<Longrightarrow> j < length xs"
  by (induction xs arbitrary: j) (auto split: if_splits)

lemma containers_map_Leaf: "containers (map Leaf xs) = xs"
  by (induction xs) auto

lemma newItems_containers:
  assumes "newItems p el fresh ls = Inr p'"
  shows "\<exists>A B g. containers p = A @ B \<and> containers p' = A @ itemsFor g fresh ls @ B"
proof -
  from assms obtain i gl where i: "getChildIndex p (cid el) = Some i"
    and ins: "insertItems p i gl fresh ls = Inr p'"
    by (auto simp: newItems_def split: option.splits elementType.splits)
  have "i < length p" using i firstIndex_less by (auto simp: getChildIndex_def)
  from insertItems_result[OF this, of gl fresh ls] ins
  have p': "p' = take (Suc i) p @ map Leaf (itemsFor gl fresh ls) @ drop (Suc i) p" by simp
  have "containers p' = containers (take (Suc i) p) @ itemsFor gl fresh ls @ containers (drop (Suc i) p)"
    unfolding p' by (simp add: containers_map_Leaf)
  moreover have "containers p = containers (take (Suc i) p) @ containers (drop (Suc i) p)"
    by (metis append_take_drop_id containers_append)
  ultimately show ?thesis by blast
qed

lemma itemsFor_ids: "map cid (itemsFor g f ls) = [f..<f + length ls]"
  by (induction ls arbitrary: f) (auto simp: upt_rec)

lemma itemsFor_text: "x \<in> set (itemsFor g f ls) \<Longrightarrow> getText x \<in> set ls"
  by (induction ls arbitrary: f) auto

text \<open>The elements of a part after the loop body.\<close>

lemma replaceInPart_containers:
  assumes r: "replaceInPart p fresh t v = Inr p'"
    and d: "distinct (map cid (containers p))"
    and f: "\<forall>x\<in>set (containers p). cid x < fresh"
    and w: "wellFormedTag t" and sp: "spanOf p t = Some (matchText t)"
    and el: "getContainer p (element (tagRange t)) = Some el"
    and s: "s = take (startOffset (tagRange t)) (getText el) @
                (if shiftedValue el t v = [] then []
                 else text1 t @ shiftedValue el t v @ text2 t) @
                drop (Suc (endOffsetInclusive (tagRange t))) (getText el)"
  shows "distinct (map cid (containers p'))"
    and "\<forall>x\<in>set (containers p').
            (x \<in> set (containers p) \<and> cid x \<noteq> element (tagRange t)) \<or>
            x = el\<lparr>getText := s\<rparr> \<or>
            (fresh \<le> cid x \<and> getText x \<in> set (splitOn isNewline v))"
proof -
  let ?el' = "el\<lparr>getText := s\<rparr>"
  let ?c = "element (tagRange t)"
  have ed: "editText el t v = Inr s" using editText_result[OF w sp el] s by simp
  from r el ed obtain p2 where
    p2: "(if isNewItemsCase el t v
              then newItems (setText (cid el) s p) el fresh (remainingLines el t v)
              else Inr (setText (cid el) s p)) = Inr p2"
    and cl: "cleanup (cid el) p2 = Inr p'"
    by (auto simp: replaceInPart_def andThen_def split: sum.splits)
  have ce: "cid el = ?c" and em: "el \<in> set (containers p)"
    using el by (auto simp: getContainer_def find_Some_iff)
  let ?p1 = "setText (cid el) s p"
  have c1: "containers ?p1 = map (upd (cid el) s) (containers p)" by (rule containers_setText)
  have i1: "map cid (containers ?p1) = map cid (containers p)"
    unfolding c1 by (simp add: upd_def comp_def)
  have s1: "\<forall>x\<in>set (containers ?p1). (x \<in> set (containers p) \<and> cid x \<noteq> ?c) \<or> x = ?el'"
  proof
    fix x assume "x \<in> set (containers ?p1)"
    then obtain y where y: "y \<in> set (containers p)" "x = upd (cid el) s y" unfolding c1 by auto
    show "(x \<in> set (containers p) \<and> cid x \<noteq> ?c) \<or> x = ?el'"
    proof (cases "cid y = cid el")
      case True
      with d y(1) em have "y = el" by (meson distinct_map inj_onD)
      with y(2) show ?thesis by (simp add: upd_def)
    next
      case False
      with y ce show ?thesis by (simp add: upd_def)
    qed
  qed
  have rl: "set (remainingLines el t v) \<subseteq> set (splitOn isNewline v)"
    by (auto simp: remainingLines_def dest: list.set_sel(2)[OF splitOn_nonempty])
  have 2: "distinct (map cid (containers p2)) \<and>
        (\<forall>x\<in>set (containers p2). (x \<in> set (containers p) \<and> cid x \<noteq> ?c) \<or> x = ?el' \<or>
            (fresh \<le> cid x \<and> getText x \<in> set (splitOn isNewline v)))"
  proof (cases "isNewItemsCase el t v")
    case False
    with p2 have "p2 = ?p1" by simp
    with s1 i1 d show ?thesis by auto
  next
    case True
    with p2 have "newItems ?p1 el fresh (remainingLines el t v) = Inr p2" by simp
    from newItems_containers[OF this] obtain A B g where
      ab: "containers ?p1 = A @ B" and c2: "containers p2 = A @ itemsFor g fresh (remainingLines el t v) @ B"
      by blast
    let ?I = "itemsFor g fresh (remainingLines el t v)"
    have old: "\<forall>x\<in>set (A @ B). cid x < fresh"
      using f i1 ab by (metis (no_types, lifting) image_iff list.set_map)
    have new: "\<forall>x\<in>set ?I. fresh \<le> cid x" using cid_itemsFor by blast
    have "distinct (map cid ?I)" by (simp add: itemsFor_ids)
    moreover have "distinct (map cid (A @ B))" using d i1 ab by simp
    moreover have "set (map cid ?I) \<inter> set (map cid (A @ B)) = {}"
    proof (rule ccontr)
      assume "set (map cid ?I) \<inter> set (map cid (A @ B)) \<noteq> {}"
      then obtain x y where "x \<in> set ?I" "y \<in> set (A @ B)" "cid x = cid y" by auto
      with old new show False by (metis not_le)
    qed
    ultimately have "distinct (map cid (A @ ?I @ B))" by auto
    moreover have "\<forall>x\<in>set (A @ ?I @ B). (x \<in> set (containers p) \<and> cid x \<noteq> ?c) \<or> x = ?el' \<or>
            (fresh \<le> cid x \<and> getText x \<in> set (splitOn isNewline v))"
      using s1 ab new itemsFor_text rl by auto
    ultimately show ?thesis using c2 by simp
  qed
  from cleanup_containers[OF cl] 2
  show "distinct (map cid (containers p'))"
    and "\<forall>x\<in>set (containers p').
            (x \<in> set (containers p) \<and> cid x \<noteq> ?c) \<or> x = ?el' \<or>
            (fresh \<le> cid x \<and> getText x \<in> set (splitOn isNewline v))"
    by auto
qed

text \<open>
  Two conditions on the input of \<open>merge\<close>: no value of the field map holds an angle
  bracket, and every angle bracket of the text of the document lies in a tag that the
  scanner finds.
\<close>

definition plainValues :: "(string \<rightharpoonup> string) \<Rightarrow> bool" where
  "plainValues fm = (\<forall>v\<in>ran fm. list_all notAngle v)"

definition coveredBy :: "tag list \<Rightarrow> nat \<Rightarrow> container \<Rightarrow> bool" where
  "coveredBy tags n x =
     list_all (\<lambda>i. notAngle (getText x ! i) \<or>
                   list_ex (\<lambda>u. docPart u = n \<and> element (tagRange u) = cid x \<and>
                                startOffset (tagRange u) \<le> i \<and> i \<le> endOffsetInclusive (tagRange u)) tags)
       [0..<length (getText x)]"

definition bracketsInTags :: "part list \<Rightarrow> bool" where
  "bracketsInTags ps =
     (case collectTags 0 ps of
        Inl e \<Rightarrow> False
      | Inr tags \<Rightarrow> list_all (\<lambda>n. list_all (coveredBy tags n) (containers (ps ! n))) [0..<length ps])"

text \<open>
  The invariant of the second loop: from some offset \<open>B\<close> on, the text of an element
  is made of plain characters and skipped tags; the tags still to be processed end
  before \<open>B\<close>, and every angle bracket before \<open>B\<close> lies in one of them.
\<close>

definition refers :: "nat \<Rightarrow> container \<Rightarrow> tag \<Rightarrow> bool" where
  "refers n x u = (docPart u = n \<and> element (tagRange u) = cid x)"

definition okText :: "(string \<rightharpoonup> string) \<Rightarrow> tag list \<Rightarrow> nat \<Rightarrow> container \<Rightarrow> bool" where
  "okText fm pending n x =
     (\<exists>B\<le>length (getText x). residue fm (drop B (getText x)) \<and>
        (\<forall>u\<in>set pending. refers n x u \<longrightarrow> endOffsetInclusive (tagRange u) < B) \<and>
        (\<forall>i<B. \<not> notAngle (getText x ! i) \<longrightarrow>
           (\<exists>u\<in>set pending. refers n x u \<and> startOffset (tagRange u) \<le> i \<and>
               i \<le> endOffsetInclusive (tagRange u))))"

definition settled :: "(string \<rightharpoonup> string) \<Rightarrow> tag list \<Rightarrow> part list \<Rightarrow> bool" where
  "settled fm pending ps =
     (\<forall>n<length ps. distinct (map cid (containers (ps ! n))) \<and>
        (\<forall>x\<in>set (containers (ps ! n)). okText fm pending n x))"

lemma okText_drop: "okText fm (t # rest) n x \<Longrightarrow> \<not> refers n x t \<Longrightarrow> okText fm rest n x"
  unfolding okText_def by (elim exE conjE, rule_tac x = B in exI) auto

lemma okText_plain:
  assumes "list_all notAngle (getText x)" "\<forall>u\<in>set pending. \<not> refers n x u"
  shows "okText fm pending n x"
proof -
  have "residue fm (getText x @ [])" by (rule residue_plain[OF assms(1) residue.Empty])
  then show ?thesis unfolding okText_def using assms(2) by (intro exI[of _ 0]) simp
qed

lemma okText_edit:
  assumes ok: "okText fm (t # rest) n x" and rt: "refers n x t"
    and se: "startOffset (tagRange t) \<le> endOffsetInclusive (tagRange t)"
    and b: "\<forall>u\<in>set rest. refers n x u \<longrightarrow> endOffsetInclusive (tagRange u) < startOffset (tagRange t)"
    and X: "\<And>R. residue fm R \<Longrightarrow> residue fm (X @ R)"
  shows "okText fm rest n (x\<lparr>getText := take (startOffset (tagRange t)) (getText x) @ X @
                              drop (Suc (endOffsetInclusive (tagRange t))) (getText x)\<rparr>)"
proof -
  let ?s = "startOffset (tagRange t)" and ?e = "endOffsetInclusive (tagRange t)" and ?T = "getText x"
  let ?T' = "take ?s ?T @ X @ drop (Suc ?e) ?T"
  let ?x' = "x\<lparr>getText := ?T'\<rparr>"
  from ok obtain B where B: "B \<le> length ?T" and res: "residue fm (drop B ?T)"
    and pend: "\<forall>u\<in>set (t # rest). refers n x u \<longrightarrow> endOffsetInclusive (tagRange u) < B"
    and cov: "\<forall>i<B. \<not> notAngle (?T ! i) \<longrightarrow>
           (\<exists>u\<in>set (t # rest). refers n x u \<and> startOffset (tagRange u) \<le> i \<and>
               i \<le> endOffsetInclusive (tagRange u))"
    unfolding okText_def by blast
  from pend rt have eB: "?e < B" by simp
  let ?Y = "take (B - Suc ?e) (drop (Suc ?e) ?T)"
  have Y: "list_all notAngle ?Y"
    unfolding list_all_length
  proof (intro allI impI)
    fix k assume k: "k < length ?Y"
    then have kb: "Suc ?e + k < B" using B by simp
    have nth: "?Y ! k = ?T ! (Suc ?e + k)" using k B by simp
    show "notAngle (?Y ! k)"
    proof (rule ccontr)
      assume "\<not> notAngle (?Y ! k)"
      with cov kb nth obtain u where u: "u \<in> set (t # rest)" "refers n x u"
        "startOffset (tagRange u) \<le> Suc ?e + k" "Suc ?e + k \<le> endOffsetInclusive (tagRange u)"
        by auto
      from u(1) consider "u = t" | "u \<in> set rest" by auto
      then show False
      proof cases
        case 1
        with u(4) show False by simp
      next
        case 2
        with b u(2) have "endOffsetInclusive (tagRange u) < ?s" by simp
        with u(4) se show False by simp
      qed
    qed
  qed
  have "drop (Suc ?e) ?T = ?Y @ drop B ?T"
    using eB B by (metis Suc_leI append_take_drop_id drop_drop le_add_diff_inverse2)
  then have "residue fm (drop (Suc ?e) ?T)" using residue_plain[OF Y res] by simp
  then have r1: "residue fm (X @ drop (Suc ?e) ?T)" by (rule X)
  have sl: "?s \<le> length ?T" using se eB B by simp
  then have d: "drop ?s ?T' = X @ drop (Suc ?e) ?T" by simp
  have c1: "\<forall>u\<in>set rest. refers n ?x' u \<longrightarrow> endOffsetInclusive (tagRange u) < ?s"
    using b by (simp add: refers_def)
  have c2: "\<forall>i<?s. \<not> notAngle (?T' ! i) \<longrightarrow>
           (\<exists>u\<in>set rest. refers n ?x' u \<and> startOffset (tagRange u) \<le> i \<and>
               i \<le> endOffsetInclusive (tagRange u))"
  proof (intro allI impI)
    fix i assume i: "i < ?s" and a: "\<not> notAngle (?T' ! i)"
    have "?T' ! i = ?T ! i" using i sl by (simp add: nth_append)
    with a cov i se eB obtain u where u: "u \<in> set (t # rest)" "refers n x u"
        "startOffset (tagRange u) \<le> i" "i \<le> endOffsetInclusive (tagRange u)"
      by (metis (no_types, lifting) le_less_trans less_imp_le_nat less_trans)
    from u(1,3) i have "u \<in> set rest" by auto
    with u show "\<exists>u\<in>set rest. refers n ?x' u \<and> startOffset (tagRange u) \<le> i \<and>
               i \<le> endOffsetInclusive (tagRange u)"
      by (auto simp: refers_def)
  qed
  show ?thesis
    unfolding okText_def
    by (rule exI[of _ ?s]) (use sl d r1 c1 c2 in simp)
qed

lemma getContainer_member:
  "getContainer p c = Some x \<Longrightarrow> x \<in> set (containers p) \<and> cid x = c"
  by (auto simp: getContainer_def find_Some_iff)

lemma getContainer_distinct:
  "distinct (map cid (containers p)) \<Longrightarrow> x \<in> set (containers p) \<Longrightarrow> getContainer p (cid x) = Some x"
  unfolding getContainer_def by (rule find_unique)

lemma processTag_settled:
  assumes p: "processTag fm ps t = Inr ps'"
    and st: "settled fm (t # rest) ps"
    and t: "wellFormedTag t" "rangeIntact ps t"
    and b: "\<forall>u\<in>set rest. endsBefore u t"
    and ri: "\<forall>u\<in>set rest. rangeIntact ps u"
    and pv: "plainValues fm"
  shows "settled fm rest ps'"
proof -
  let ?n = "docPart t" and ?c = "element (tagRange t)"
  let ?s = "startOffset (tagRange t)" and ?e = "endOffsetInclusive (tagRange t)"
  let ?p = "ps ! ?n"
  from t have dt: "?n < length ps" and sp: "spanOf ?p t = Some (matchText t)"
    by (auto simp: rangeIntact_def)
  from sp obtain el where el: "getContainer ?p ?c = Some el"
    by (auto simp: spanOf_def split: option.splits)
  from getContainer_member[OF el] have em: "el \<in> set (containers ?p)" and ce: "cid el = ?c" by auto
  from st dt have dp: "distinct (map cid (containers ?p))" by (simp add: settled_def)
  from spanOf_split[OF sp el] have se: "?s \<le> ?e" "?e < length (getText el)"
    and tx: "getText el = take ?s (getText el) @ matchText t @ drop (Suc ?e) (getText el)" by auto
  have same: "x = el" if "x \<in> set (containers ?p)" "refers ?n x t" for x
    using that dp em ce by (metis distinct_map inj_onD refers_def)
  have bel: "\<forall>u\<in>set rest. refers ?n el u \<longrightarrow> endOffsetInclusive (tagRange u) < ?s"
    using b ce by (auto simp: refers_def endsBefore_def)
  have okel: "okText fm (t # rest) ?n el" using st dt em by (simp add: settled_def)
  have rel: "refers ?n el t" using ce by (simp add: refers_def)
  have other: "okText fm rest n x"
    if "n < length ps" "x \<in> set (containers (ps ! n))" "\<not> refers n x t" for n x
  proof -
    from st that(1,2) have "okText fm (t # rest) n x" by (simp add: settled_def)
    then show ?thesis using that(3) by (rule okText_drop)
  qed
  show ?thesis
  proof (cases "resolve fm t")
    case None
    then have sk: "fm (tagName t) = None" "\<not> opt t" by (auto simp: resolve_def split: option.splits if_splits)
    from None p have ps': "ps' = ps" by (simp add: processTag_def)
    have X: "residue fm (matchText t @ R)" if "residue fm R" for R
      using t(1) sk that by (auto simp: wellFormedTag_def intro: residue.Skipped)
    from okText_edit[OF okel rel se(1) bel X] tx have "okText fm rest ?n el" by simp
    then have "okText fm rest n x" if "n < length ps" "x \<in> set (containers (ps ! n))" for n x
      using that other same by (cases "refers n x t") (auto simp: refers_def)
    then show ?thesis using st ps' by (simp add: settled_def)
  next
    case (Some v)
    have v: "list_all notAngle v"
      using Some pv by (auto simp: resolve_def plainValues_def ran_def split: option.splits if_splits)
    from p Some dt obtain p' where r: "replaceInPart ?p (freshId ps) t v = Inr p'"
      and ps': "ps' = ps[?n := p']"
      by (auto simp: processTag_def at_def andThen_def split: sum.splits)
    have f: "\<forall>x\<in>set (containers ?p). cid x < freshId ps"
      using freshId_gt[of ?p ps] dt by simp
    let ?sv = "shiftedValue el t v"
    let ?X = "if ?sv = [] then [] else text1 t @ ?sv @ text2 t"
    let ?s' = "take ?s (getText el) @ ?X @ drop (Suc ?e) (getText el)"
    note rc = replaceInPart_containers[OF r dp f t(1) sp el refl]
    have "hd (splitOn isNewline v) \<in> set (splitOn isNewline v)"
      using splitOn_nonempty by simp
    then have sv: "list_all notAngle ?sv"
      using v splitOn_lines[OF v] by (simp add: shiftedValue_def)
    have "list_all notAngle ?X" using sv t(1) by (simp add: wellFormedTag_def)
    then have X: "residue fm (?X @ R)" if "residue fm R" for R
      using that by (rule residue_plain)
    have okel': "okText fm rest ?n (el\<lparr>getText := ?s'\<rparr>)"
      by (rule okText_edit[OF okel rel se(1) bel X])
    have new: "okText fm rest ?n x"
      if x: "freshId ps \<le> cid x" "getText x \<in> set (splitOn isNewline v)" for x
    proof (rule okText_plain)
      show "list_all notAngle (getText x)" using splitOn_lines[OF v x(2)] .
      show "\<forall>u\<in>set rest. \<not> refers ?n x u"
      proof
        fix u assume u: "u \<in> set rest"
        show "\<not> refers ?n x u"
        proof
          assume a: "refers ?n x u"
          from ri u a obtain y where "getContainer ?p (element (tagRange u)) = Some y"
            by (auto simp: rangeIntact_def refers_def spanOf_def split: option.splits)
          from getContainer_member[OF this] f have "element (tagRange u) < freshId ps" by auto
          with a x(1) show False by (simp add: refers_def)
        qed
      qed
    qed
    have "distinct (map cid (containers (ps' ! n))) \<and>
        (\<forall>x\<in>set (containers (ps' ! n)). okText fm rest n x)" if n: "n < length ps" for n
    proof (cases "n = ?n")
      case False
      then have "ps' ! n = ps ! n" using ps' by simp
      moreover have "\<not> refers n x t" for x using False by (simp add: refers_def)
      ultimately show ?thesis using st n other by (auto simp: settled_def)
    next
      case True
      then have pn: "ps' ! n = p'" using ps' dt by simp
      have "okText fm rest ?n x" if "x \<in> set (containers p')" for x
      proof -
        from rc(2) that consider "x \<in> set (containers ?p)" "cid x \<noteq> ?c"
          | "x = el\<lparr>getText := ?s'\<rparr>"
          | "freshId ps \<le> cid x" "getText x \<in> set (splitOn isNewline v)" by blast
        then show ?thesis
        proof cases
          case 1
          then show ?thesis using other[OF dt] by (simp add: refers_def)
        next
          case 2
          then show ?thesis using okel' by simp
        next
          case 3
          then show ?thesis by (rule new)
        qed
      qed
      then show ?thesis using rc(1) pn True by simp
    qed
    then show ?thesis using ps' by (simp add: settled_def)
  qed
qed

lemma processTags_settled:
  "sorted_wrt (\<lambda>t u. endsBefore u t) ds \<Longrightarrow>
   \<forall>u\<in>set ds. wellFormedTag u \<and> rangeIntact ps u \<Longrightarrow>
   settled fm ds ps \<Longrightarrow> plainValues fm \<Longrightarrow>
   processTags fm ds ps = Inr ps' \<Longrightarrow>
   settled fm [] ps'"
proof (induction ds arbitrary: ps)
  case Nil
  then show ?case by simp
next
  case (Cons d ds)
  from Cons.prems(5) obtain ps1 where p1: "processTag fm ps d = Inr ps1"
    and p2: "processTags fm ds ps1 = Inr ps'"
    by (auto simp: andThen_def split: sum.splits)
  have s: "sorted_wrt (\<lambda>t u. endsBefore u t) ds" and b: "\<forall>u\<in>set ds. endsBefore u d"
    using Cons.prems(1) by auto
  have d: "wellFormedTag d" "rangeIntact ps d" using Cons.prems(2) by auto
  have ri: "\<forall>u\<in>set ds. rangeIntact ps u" using Cons.prems(2) by auto
  have i: "\<forall>u\<in>set ds. wellFormedTag u \<and> rangeIntact ps1 u"
  proof
    fix u assume u: "u \<in> set ds"
    with Cons.prems(2) have w: "wellFormedTag u" "rangeIntact ps u" by auto
    from processTag_keeps[OF p1 w(2) wellFormedTag_nonempty[OF w(1)] _ d] b u
    show "wellFormedTag u \<and> rangeIntact ps1 u" using w(1) by blast
  qed
  have f: "settled fm ds ps1"
    by (rule processTag_settled[OF p1 Cons.prems(3) d b ri Cons.prems(4)])
  from Cons.IH[OF s i f Cons.prems(4) p2] show ?case .
qed

lemma settled_residue:
  assumes "settled fm [] ps" "n < length ps" "x \<in> set (containers (ps ! n))"
  shows "residue fm (getText x)"
proof -
  from assms have "okText fm [] n x" by (simp add: settled_def)
  then obtain B where B: "B \<le> length (getText x)" and r: "residue fm (drop B (getText x))"
    and c: "\<forall>i<B. notAngle (getText x ! i)"
    unfolding okText_def by auto
  have "list_all notAngle (take B (getText x))"
    using c B by (simp add: list_all_length)
  from residue_plain[OF this r] show ?thesis by simp
qed

text \<open>
  Claim C8, amended. For a document whose elements are distinct objects and a field
  map such that no mapped value holds an angle bracket and every angle bracket of the
  text of the document lies in a tag that the scanner finds: when \<open>merge\<close> completes,
  the scanner finds in its output only tags that are not optional and whose name is
  not in the field map, which are the tags that \<open>merge\<close> skipped. A second run finds
  no tag whose name is in the field map.
\<close>

theorem merge_settles:
  assumes wf: "wellFormedDocument d" and pv: "plainValues fm"
    and br: "bracketsInTags (getDocumentParts d)"
    and m: "merge d fm = Inr ps'"
  shows "\<exists>tags'. collectTags 0 ps' = Inr tags' \<and>
           (\<forall>t\<in>set tags'. fm (tagName t) = None \<and> \<not> opt t)"
proof -
  let ?ps = "getDocumentParts d"
  from collectTags_spec[OF wf[unfolded wellFormedDocument_def], of 0] obtain tags where
    c: "collectTags 0 ?ps = Inr tags"
    and t: "\<forall>t\<in>set tags. wellFormedTag t \<and> docPart t < length ?ps \<and>
                spanOf (?ps ! docPart t) t = Some (matchText t)"
    and so: "sorted_wrt (\<lambda>u t. docPart u < docPart t \<or>
                (docPart u = docPart t \<and> precedes (?ps ! (docPart u - 0)) u t)) tags"
    by auto
  have mm: "processTags fm (rev tags) ?ps = Inr ps'"
    using m by (simp add: merge_def c andThen_def)
  have e: "sorted_wrt (\<lambda>t u. endsBefore u t) (rev tags)"
    unfolding sorted_wrt_rev
    by (rule sorted_wrt_mono_rel[OF _ so]) (auto simp: endsBefore_def precedes_def)
  have i: "\<forall>u\<in>set (rev tags). wellFormedTag u \<and> rangeIntact ?ps u"
    using t by (simp add: rangeIntact_def)
  have dn: "distinct (map cid (containers (?ps ! n)))" if "n < length ?ps" for n
    using wf that by (simp add: wellFormedDocument_def list_all_length)
  have cov: "coveredBy tags n x" if "n < length ?ps" "x \<in> set (containers (?ps ! n))" for n x
    using br c that by (simp add: bracketsInTags_def list_all_iff)
  have init: "settled fm (rev tags) ?ps"
    unfolding settled_def
  proof (intro allI impI conjI ballI)
    fix n assume n: "n < length ?ps"
    show "distinct (map cid (containers (?ps ! n)))" by (rule dn[OF n])
    fix x assume x: "x \<in> set (containers (?ps ! n))"
    have g: "getContainer (?ps ! n) (cid x) = Some x" by (rule getContainer_distinct[OF dn[OF n] x])
    have 1: "\<forall>u\<in>set (rev tags). refers n x u \<longrightarrow> endOffsetInclusive (tagRange u) < length (getText x)"
    proof (intro ballI impI)
      fix u assume "u \<in> set (rev tags)" "refers n x u"
      with t g have "spanOf (?ps ! n) u = Some (matchText u)"
        "getContainer (?ps ! n) (element (tagRange u)) = Some x" by (auto simp: refers_def)
      from spanOf_split[OF this] show "endOffsetInclusive (tagRange u) < length (getText x)" by simp
    qed
    have 2: "\<forall>i<length (getText x). \<not> notAngle (getText x ! i) \<longrightarrow>
           (\<exists>u\<in>set (rev tags). refers n x u \<and> startOffset (tagRange u) \<le> i \<and>
               i \<le> endOffsetInclusive (tagRange u))"
      using cov[OF n x] by (auto simp: coveredBy_def list_all_iff list_ex_iff refers_def)
    show "okText fm (rev tags) n x"
      unfolding okText_def
      by (rule exI[of _ "length (getText x)"]) (use 1 2 in \<open>simp add: residue.Empty\<close>)
  qed
  have fin: "settled fm [] ps'" by (rule processTags_settled[OF e i init pv mm])
  then have wf': "list_all (\<lambda>p. distinct (map cid (containers p))) ps'"
    by (simp add: settled_def list_all_length)
  from collectTags_spec[OF wf', of 0] obtain tags' where
    c': "collectTags 0 ps' = Inr tags'"
    and t': "\<forall>t\<in>set tags'. wellFormedTag t \<and> docPart t < length ps' \<and>
                spanOf (ps' ! docPart t) t = Some (matchText t)"
    by auto
  have "fm (tagName u) = None \<and> \<not> opt u" if u: "u \<in> set tags'" for u
  proof -
    from t' u have w: "wellFormedTag u" and n: "docPart u < length ps'"
      and sp: "spanOf (ps' ! docPart u) u = Some (matchText u)" by auto
    from sp obtain x where g: "getContainer (ps' ! docPart u) (element (tagRange u)) = Some x"
      by (auto simp: spanOf_def split: option.splits)
    from getContainer_member[OF g] have x: "x \<in> set (containers (ps' ! docPart u))" by simp
    have res: "residue fm (getText x)" by (rule settled_residue[OF fin n x])
    let ?s = "startOffset (tagRange u)" and ?e = "endOffsetInclusive (tagRange u)"
    from residue_settled[OF res spanOf_matchPattern[OF w sp g]] obtain p nm r where
      tk: "take (Suc ?e - ?s) (drop ?s (getText x)) = tagConstruct p nm False r"
      and pr: "list_all notAngle p" "list_all tagChar nm" and fn: "fm nm = None" by blast
    from sp g have "take (Suc ?e - ?s) (drop ?s (getText x)) = matchText u"
      by (auto simp: spanOf_def split: if_splits)
    with tk w have "tagConstruct (text1 u) (tagName u) (opt u) (text2 u) = tagConstruct p nm False r"
      by (simp add: wellFormedTag_def)
    from tagConstruct_name[OF this] w pr have "tagName u = nm" "opt u = False"
      by (auto simp: wellFormedTag_def)
    with fn show ?thesis by simp
  qed
  with c' show ?thesis by blast
qed

subsection \<open>The end of the loop body\<close>

text \<open>
  The items that the loop body adds after the element \<open>el\<close>: one for each line of the
  value after the first, when \<open>el\<close> is a list item and the match is its whole text.
\<close>

definition addedItems :: "container \<Rightarrow> tag \<Rightarrow> string \<Rightarrow> nat \<Rightarrow> container list" where
  "addedItems el t v fresh =
     (case kind el of
        LIST_ITEM g \<Rightarrow> if isFullRep el t then itemsFor g fresh (tl (splitOn isNewline v)) else []
      | PARAGRAPH \<Rightarrow> [])"

lemma setText_inCell:
  assumes d: "distinct (map cid (containers (pre @ Table (rs1 @ (cs1 @ (xs @ el # ys) # cs2) # rs2) # post)))"
  shows "setText (cid el) s (pre @ Table (rs1 @ (cs1 @ (xs @ el # ys) # cs2) # rs2) # post) =
           pre @ Table (rs1 @ (cs1 @ (xs @ el\<lparr>getText := s\<rparr> # ys) # cs2) # rs2) # post"
proof -
  let ?c = "cid el"
  have a: "?c \<notin> idsOf pre" "?c \<notin> idsOf post" "?c \<notin> cid ` set (concat (concat rs1))"
    "?c \<notin> cid ` set (concat (concat rs2))" "?c \<notin> cid ` set (concat cs1)"
    "?c \<notin> cid ` set (concat cs2)" "?c \<notin> cid ` set xs" "?c \<notin> cid ` set ys"
    using d by (auto simp: idsOf_def)
  have row: "c \<notin> cid ` set (concat row) \<Longrightarrow> map (map (upd c s)) row = row" for c and row :: row
    by (induction row) (auto intro!: upd_absent)
  have rows: "c \<notin> cid ` set (concat (concat rows)) \<Longrightarrow> map (map (map (upd c s))) rows = rows"
    for c and rows :: "row list"
    by (induction rows) (auto intro!: row)
  show ?thesis
    using a by (simp add: setText_append setText_Cons setText_absent rows row upd_absent upd_def)
qed

text \<open>
  A list item in a table cell whose whole text is the match: the loop body ends with
  the exception of \<open>getChildIndex\<close>, whatever the value.
\<close>

lemma replaceInPart_nested_item:
  assumes d: "distinct (map cid (containers (pre @ Table (rs1 @ (cs1 @ (xs @ el # ys) # cs2) # rs2) # post)))"
    and e: "element (tagRange t) = cid el"
    and w: "wellFormedTag t"
    and sp: "spanOf (pre @ Table (rs1 @ (cs1 @ (xs @ el # ys) # cs2) # rs2) # post) t = Some (matchText t)"
    and i: "isItem el" and f: "isFullRep el t"
  shows "replaceInPart (pre @ Table (rs1 @ (cs1 @ (xs @ el # ys) # cs2) # rs2) # post) fresh t v = Inl NotAChild"
proof -
  let ?p = "pre @ Table (rs1 @ (cs1 @ (xs @ el # ys) # cs2) # rs2) # post"
  have g: "getContainer ?p (element (tagRange t)) = Some el"
    using inCell_facts(1)[OF d] e by simp
  have n: "isNewItemsCase el t v"
    using i f splitOn_nonempty[of isNewline v] by (simp add: isNewItemsCase_def)
  from editText_result[OF w sp g, of v] obtain s where ed: "editText el t v = Inr s" by blast
  let ?el' = "el\<lparr>getText := s\<rparr>"
  let ?p' = "pre @ Table (rs1 @ (cs1 @ (xs @ ?el' # ys) # cs2) # rs2) # post"
  have d': "distinct (map cid (containers ?p'))" using d by simp
  have gi: "getChildIndex ?p' (cid el) = None" using inCell_facts(3)[OF d'] by simp
  have ni: "newItems ?p' el fresh (remainingLines el t v) = Inl NotAChild"
    by (simp add: newItems_def gi)
  show ?thesis
    unfolding replaceInPart_def g option.case ed andThen_def sum.case if_P[OF n] setText_inCell[OF d] ni ..
qed

text \<open>
  An element in a table cell that is not a list item filled by the match: after the
  edit, an element with text stays; an element left empty is removed from the cell,
  and the row of the cell is removed when every cell of the row is then empty.
\<close>

lemma replaceInPart_inCell:
  assumes d: "distinct (map cid (containers (pre @ Table (rs1 @ (cs1 @ (xs @ el # ys) # cs2) # rs2) # post)))"
    and e: "element (tagRange t) = cid el"
    and w: "wellFormedTag t"
    and sp: "spanOf (pre @ Table (rs1 @ (cs1 @ (xs @ el # ys) # cs2) # rs2) # post) t = Some (matchText t)"
    and n: "\<not> (isItem el \<and> isFullRep el t)"
  shows "\<exists>s. editText el t v = Inr s \<and>
           replaceInPart (pre @ Table (rs1 @ (cs1 @ (xs @ el # ys) # cs2) # rs2) # post) fresh t v =
             Inr (if s \<noteq> [] then pre @ Table (rs1 @ (cs1 @ (xs @ el\<lparr>getText := s\<rparr> # ys) # cs2) # rs2) # post
                  else if list_all (\<lambda>cell. cellText cell = []) (cs1 @ (xs @ ys) # cs2)
                       then pre @ Table (rs1 @ rs2) # post
                       else pre @ Table (rs1 @ (cs1 @ (xs @ ys) # cs2) # rs2) # post)"
proof -
  let ?p = "pre @ Table (rs1 @ (cs1 @ (xs @ el # ys) # cs2) # rs2) # post"
  have g: "getContainer ?p (element (tagRange t)) = Some el"
    using inCell_facts(1)[OF d] e by simp
  have nn: "\<not> isNewItemsCase el t v" using n by (auto simp: isNewItemsCase_def)
  from editText_result[OF w sp g, of v] obtain s where ed: "editText el t v = Inr s" by blast
  let ?el' = "el\<lparr>getText := s\<rparr>"
  let ?p' = "pre @ Table (rs1 @ (cs1 @ (xs @ ?el' # ys) # cs2) # rs2) # post"
  have d': "distinct (map cid (containers ?p'))" using d by simp
  have cl: "cleanup (cid el) ?p' =
        Inr (if s \<noteq> [] then ?p'
             else if list_all (\<lambda>cell. cellText cell = []) (cs1 @ (xs @ ys) # cs2)
                  then pre @ Table (rs1 @ rs2) # post
                  else pre @ Table (rs1 @ (cs1 @ (xs @ ys) # cs2) # rs2) # post)"
    using cleanup_cases[of pre ?el' post rs1 cs1 xs ys cs2 rs2] d' by simp
  have "replaceInPart ?p fresh t v = cleanup (cid el) ?p'"
    unfolding replaceInPart_def g option.case ed andThen_def sum.case if_not_P[OF nn] setText_inCell[OF d] ..
  with cl ed show ?thesis by simp
qed

lemma itemsFor_idset: "cid ` set (itemsFor g f ls) = {f ..< f + length ls}"
proof (induction ls arbitrary: f)
  case Nil
  then show ?case by simp
next
  case (Cons l ls)
  have "{f ..< f + length (l # ls)} = insert f {Suc f ..< Suc f + length ls}" by auto
  with Cons show ?case by simp
qed

lemma itemsFor_distinct: "distinct (map cid (itemsFor g f ls))"
  by (simp add: itemsFor_ids)

lemma removeFromParent_Leafs:
  "c \<notin> cid ` set xs \<Longrightarrow> removeFromParent c (map Leaf xs) = map Leaf xs"
  by (induction xs) auto

text \<open>
  An element that is a child of the part: after the edit and the new items, an element
  with text stays; an element left empty is removed from the part.
\<close>

lemma replaceInPart_topLevel:
  assumes d: "distinct (map cid (containers (pre @ Leaf el # post)))"
    and e: "element (tagRange t) = cid el"
    and w: "wellFormedTag t"
    and sp: "spanOf (pre @ Leaf el # post) t = Some (matchText t)"
    and fr: "\<forall>x\<in>set (containers (pre @ Leaf el # post)). cid x < fresh"
  shows "\<exists>s. editText el t v = Inr s \<and>
           replaceInPart (pre @ Leaf el # post) fresh t v =
             Inr (pre @ (if s = [] then [] else [Leaf (el\<lparr>getText := s\<rparr>)]) @
                  map Leaf (addedItems el t v fresh) @ post)"
proof -
  let ?p = "pre @ Leaf el # post"
  note tf = topLevel_facts[OF d]
  have g: "getContainer ?p (element (tagRange t)) = Some el" using tf(1) e by simp
  from editText_result[OF w sp g, of v] obtain s where ed: "editText el t v = Inr s" by blast
  let ?el' = "el\<lparr>getText := s\<rparr>"
  let ?its = "addedItems el t v fresh"
  let ?q = "pre @ Leaf ?el' # map Leaf ?its @ post"
  have st: "setText (cid el) s ?p = pre @ Leaf ?el' # post"
    using tf(2,3) by (simp add: setText_append setText_Cons setText_absent upd_def)
  have mid: "(if isNewItemsCase el t v
              then newItems (pre @ Leaf ?el' # post) el fresh (remainingLines el t v)
              else Inr (pre @ Leaf ?el' # post)) = Inr ?q"
  proof (cases "isNewItemsCase el t v")
    case True
    then obtain gl where k: "kind el = LIST_ITEM gl" and f: "isFullRep el t"
      by (auto simp: isNewItemsCase_def isItem_def split: elementType.splits)
    have rl: "remainingLines el t v = tl (splitOn isNewline v)"
      using True by (simp add: remainingLines_def)
    have its: "?its = itemsFor gl fresh (tl (splitOn isNewline v))"
      using k f by (simp add: addedItems_def)
    have d': "distinct (map cid (containers (pre @ Leaf ?el' # post)))" using d by simp
    have gi: "getChildIndex (pre @ Leaf ?el' # post) (cid el) = Some (length pre)"
      using topLevel_facts(5)[OF d'] by simp
    have ins: "insertItems (pre @ Leaf ?el' # post) (length pre) gl fresh (tl (splitOn isNewline v)) =
        Inr (pre @ Leaf ?el' # map Leaf (itemsFor gl fresh (tl (splitOn isNewline v))) @ post)"
      using insertItems_result[of "length pre" "pre @ Leaf ?el' # post" gl fresh "tl (splitOn isNewline v)"]
      by simp
    show ?thesis using True by (simp add: newItems_def gi k ins rl its)
  next
    case False
    then have "?its = []"
      by (auto simp: addedItems_def isNewItemsCase_def isItem_def splitOn_nonempty
          split: elementType.splits)
    with False show ?thesis by simp
  qed
  have "fresh \<le> cid x" if "x \<in> set (itemsFor gl fresh ls)" for gl ls x
    using imageI[OF that, of cid] unfolding itemsFor_idset by simp
  then have ids: "cid ` set ?its \<subseteq> {fresh ..}"
    by (cases "kind el") (auto simp: addedItems_def split: if_splits)
  have di: "distinct (map cid ?its)"
    by (cases "kind el") (simp_all add: addedItems_def itemsFor_distinct)
  have lt: "\<forall>x\<in>set (containers pre) \<union> set (containers post) \<union> {el}. cid x < fresh"
    using fr by auto
  have ge: "fresh \<le> cid x" if "x \<in> set ?its" for x
    using ids that by auto
  have nel: "cid el \<notin> cid ` set ?its"
  proof
    assume "cid el \<in> cid ` set ?its"
    then obtain x where x: "x \<in> set ?its" "cid x = cid el" by auto
    from x(1) have "fresh \<le> cid x" by (rule ge)
    moreover from lt have "cid el < fresh" by blast
    ultimately show False using x(2) by simp
  qed
  have npre: "cid ` set (containers pre) \<inter> cid ` set ?its = {}"
  proof (rule ccontr)
    assume "cid ` set (containers pre) \<inter> cid ` set ?its \<noteq> {}"
    then obtain y x where yx: "y \<in> set (containers pre)" "x \<in> set ?its" "cid y = cid x" by auto
    from yx(2) have "fresh \<le> cid x" by (rule ge)
    moreover from lt yx(1) have "cid y < fresh" by blast
    ultimately show False using yx(3) by simp
  qed
  have npost: "cid ` set ?its \<inter> cid ` set (containers post) = {}"
  proof (rule ccontr)
    assume "cid ` set ?its \<inter> cid ` set (containers post) \<noteq> {}"
    then obtain y x where yx: "y \<in> set (containers post)" "x \<in> set ?its" "cid x = cid y" by auto
    from yx(2) have "fresh \<le> cid x" by (rule ge)
    moreover from lt yx(1) have "cid y < fresh" by blast
    ultimately show False using yx(3) by simp
  qed
  have d0: "distinct (map cid (containers pre))" "distinct (map cid (containers post))"
    "cid el \<notin> cid ` set (containers pre)" "cid el \<notin> cid ` set (containers post)"
    "cid ` set (containers pre) \<inter> cid ` set (containers post) = {}"
    using d by auto
  have cq: "containers ?q = containers pre @ ?el' # ?its @ containers post"
    by (simp add: containers_map_Leaf)
  have dq: "distinct (map cid (containers ?q))"
    unfolding cq using d0 di nel npre npost by (simp add: Int_Un_distrib Int_Un_distrib2)
  have rm: "removeFromParent (cid ?el') ?q = pre @ map Leaf ?its @ post"
    using tf(2,3) nel
    by (simp add: removeFromParent_append removeFromParent_absent removeFromParent_Leafs)
  have cl: "cleanup (cid el) ?q = Inr (if s = [] then pre @ map Leaf ?its @ post else ?q)"
    unfolding cleanup_def topLevel_facts(1)[OF dq, simplified] option.case
      topLevel_facts(4)[OF dq, simplified] Let_def rm[simplified]
    by simp
  have "replaceInPart ?p fresh t v = cleanup (cid el) ?q"
    unfolding replaceInPart_def g option.case ed andThen_def sum.case st mid ..
  with cl ed show ?thesis by simp
qed

text \<open>
  The same for the loop body as \<open>merge\<close> runs it on a tag with a value.
\<close>

lemma processTag_topLevel:
  assumes "docPart t < length ps"
    and "ps ! docPart t = pre @ Leaf el # post"
    and "distinct (map cid (containers (ps ! docPart t)))"
    and "element (tagRange t) = cid el"
    and "wellFormedTag t"
    and "spanOf (ps ! docPart t) t = Some (matchText t)"
    and "resolve fm t = Some v"
  shows "\<exists>s. editText el t v = Inr s \<and>
           processTag fm ps t =
             Inr (ps[docPart t := pre @ (if s = [] then [] else [Leaf (el\<lparr>getText := s\<rparr>)]) @
                                  map Leaf (addedItems el t v (freshId ps)) @ post])"
proof -
  have a: "at ps (docPart t) = Some (pre @ Leaf el # post)"
    using assms(1,2) by (simp add: at_def)
  have "ps ! docPart t \<in> set ps" using assms(1) by simp
  then have fr: "\<forall>x\<in>set (containers (pre @ Leaf el # post)). cid x < freshId ps"
    unfolding assms(2) by (blast intro: freshId_gt)
  from replaceInPart_topLevel[OF assms(3)[unfolded assms(2)] assms(4,5) assms(6)[unfolded assms(2)] fr, of v]
  obtain s where s: "editText el t v = Inr s"
    "replaceInPart (pre @ Leaf el # post) (freshId ps) t v =
       Inr (pre @ (if s = [] then [] else [Leaf (el\<lparr>getText := s\<rparr>)]) @
            map Leaf (addedItems el t v (freshId ps)) @ post)"
    by blast
  have "processTag fm ps t =
      Inr (ps[docPart t := pre @ (if s = [] then [] else [Leaf (el\<lparr>getText := s\<rparr>)]) @
                                  map Leaf (addedItems el t v (freshId ps)) @ post])"
    unfolding processTag_def assms(7) option.case a s(2) andThen_def sum.case ..
  with s(1) show ?thesis by blast
qed

lemma processTag_inCell:
  assumes "docPart t < length ps"
    and "ps ! docPart t = pre @ Table (rs1 @ (cs1 @ (xs @ el # ys) # cs2) # rs2) # post"
    and "distinct (map cid (containers (ps ! docPart t)))"
    and "element (tagRange t) = cid el"
    and "wellFormedTag t"
    and "spanOf (ps ! docPart t) t = Some (matchText t)"
    and "resolve fm t = Some v"
    and "\<not> (isItem el \<and> isFullRep el t)"
  shows "\<exists>s. editText el t v = Inr s \<and>
           processTag fm ps t =
             Inr (ps[docPart t :=
                   if s \<noteq> [] then pre @ Table (rs1 @ (cs1 @ (xs @ el\<lparr>getText := s\<rparr> # ys) # cs2) # rs2) # post
                   else if list_all (\<lambda>cell. cellText cell = []) (cs1 @ (xs @ ys) # cs2)
                        then pre @ Table (rs1 @ rs2) # post
                        else pre @ Table (rs1 @ (cs1 @ (xs @ ys) # cs2) # rs2) # post])"
proof -
  have a: "at ps (docPart t) = Some (pre @ Table (rs1 @ (cs1 @ (xs @ el # ys) # cs2) # rs2) # post)"
    using assms(1,2) by (simp add: at_def)
  from replaceInPart_inCell[OF assms(3)[unfolded assms(2)] assms(4,5) assms(6)[unfolded assms(2)] assms(8),
      of v "freshId ps"]
  obtain s where s: "editText el t v = Inr s"
    "replaceInPart (pre @ Table (rs1 @ (cs1 @ (xs @ el # ys) # cs2) # rs2) # post) (freshId ps) t v =
       Inr (if s \<noteq> [] then pre @ Table (rs1 @ (cs1 @ (xs @ el\<lparr>getText := s\<rparr> # ys) # cs2) # rs2) # post
            else if list_all (\<lambda>cell. cellText cell = []) (cs1 @ (xs @ ys) # cs2)
                 then pre @ Table (rs1 @ rs2) # post
                 else pre @ Table (rs1 @ (cs1 @ (xs @ ys) # cs2) # rs2) # post)"
    by blast
  have "processTag fm ps t =
      Inr (ps[docPart t :=
                   if s \<noteq> [] then pre @ Table (rs1 @ (cs1 @ (xs @ el\<lparr>getText := s\<rparr> # ys) # cs2) # rs2) # post
                   else if list_all (\<lambda>cell. cellText cell = []) (cs1 @ (xs @ ys) # cs2)
                        then pre @ Table (rs1 @ rs2) # post
                        else pre @ Table (rs1 @ (cs1 @ (xs @ ys) # cs2) # rs2) # post])"
    unfolding processTag_def assms(7) option.case a s(2) andThen_def sum.case ..
  with s(1) show ?thesis by blast
qed

lemma processTag_nested_item:
  assumes "docPart t < length ps"
    and "ps ! docPart t = pre @ Table (rs1 @ (cs1 @ (xs @ el # ys) # cs2) # rs2) # post"
    and "distinct (map cid (containers (ps ! docPart t)))"
    and "element (tagRange t) = cid el"
    and "wellFormedTag t"
    and "spanOf (ps ! docPart t) t = Some (matchText t)"
    and "resolve fm t = Some v"
    and "isItem el" and "isFullRep el t"
  shows "processTag fm ps t = Inl NotAChild"
proof -
  have a: "at ps (docPart t) = Some (pre @ Table (rs1 @ (cs1 @ (xs @ el # ys) # cs2) # rs2) # post)"
    using assms(1,2) by (simp add: at_def)
  show ?thesis
    unfolding processTag_def assms(7) option.case a andThen_def
      replaceInPart_nested_item[OF assms(3)[unfolded assms(2)] assms(4,5) assms(6)[unfolded assms(2)] assms(8,9)]
    by simp
qed

section \<open>Examples\<close>

definition sampleBody :: part where
  "sampleBody =
     [Leaf \<lparr>cid = 1, kind = PARAGRAPH, getText = ''Hello <<Name>> World <a<b?>c>''\<rparr>,
      Table [[[\<lparr>cid = 2, kind = PARAGRAPH, getText = ''<<x>><<y>>''\<rparr>], []]]]"

lemma sampleBody_distinct: "distinct (map cid (containers sampleBody))"
  by (simp add: sampleBody_def containers_def)

theorem findAllTags_fields_witness:
  "distinct (map cid (containers sampleBody)) \<and>
   (\<exists>tags. findAllTags 0 sampleBody = Inr tags \<and>
      (\<forall>t\<in>set tags.
         list_all notAngle (text1 t) \<and> list_all notAngle (text2 t) \<and>
         list_all tagChar (tagName t) \<and>
         spanOf sampleBody t = Some (matchText t) \<and>
         matchText t = tagConstruct (text1 t) (tagName t) (opt t) (text2 t)))"
  using sampleBody_distinct findAllTags_fields[OF sampleBody_distinct, of 0] by simp

theorem findAllTags_ordered_witness:
  "distinct (map cid (containers sampleBody)) \<and>
   (\<exists>tags. findAllTags 0 sampleBody = Inr tags \<and> sorted_wrt (precedes sampleBody) tags \<and>
      (\<forall>t\<in>set tags. startOffset (tagRange t) \<le> endOffsetInclusive (tagRange t)))"
  using sampleBody_distinct findAllTags_ordered[OF sampleBody_distinct, of 0] by simp

definition body1 :: "part \<Rightarrow> document" where
  "body1 b = \<lparr>header = None, body = Some b, footer = None, footnotes = []\<rparr>"

definition helloPar :: container where
  "helloPar = \<lparr>cid = 1, kind = PARAGRAPH, getText = ''Hello <<Name>> World''\<rparr>"

definition helloTag :: tag where
  "helloTag = \<lparr>matchText = ''<<Name>>'',
      tagRange = \<lparr>element = 1, startOffset = 6, endOffsetInclusive = 13\<rparr>,
      text1 = [], tagName = ''Name'', text2 = [], opt = False, docPart = 0\<rparr>"

definition fieldItem :: container where
  "fieldItem = \<lparr>cid = 1, kind = LIST_ITEM NUMBER, getText = ''<<Field>>''\<rparr>"

definition fieldTag :: tag where
  "fieldTag = \<lparr>matchText = ''<<Field>>'',
      tagRange = \<lparr>element = 1, startOffset = 0, endOffsetInclusive = 8\<rparr>,
      text1 = [], tagName = ''Field'', text2 = [], opt = False, docPart = 0\<rparr>"

definition optTag :: tag where
  "optTag = \<lparr>matchText = ''<Hi <X?> Bye>'',
      tagRange = \<lparr>element = 1, startOffset = 0, endOffsetInclusive = 12\<rparr>,
      text1 = ''Hi '', tagName = ''X'', text2 = '' Bye'', opt = True, docPart = 0\<rparr>"

definition unknownTag :: tag where
  "unknownTag = \<lparr>matchText = ''<<Unknown>>'',
      tagRange = \<lparr>element = 1, startOffset = 0, endOffsetInclusive = 10\<rparr>,
      text1 = [], tagName = ''Unknown'', text2 = [], opt = False, docPart = 0\<rparr>"

definition twoLines :: string where
  "twoLines = [CHR ''A'', CHR 0x0A, CHR ''B'']"

theorem editText_replaces_witness:
  "wellFormedTag helloTag \<and>
   spanOf [Leaf helloPar] helloTag = Some (matchText helloTag) \<and>
   getContainer [Leaf helloPar] (element (tagRange helloTag)) = Some helloPar \<and>
   editText helloPar helloTag ''Bob'' = Inr ''Hello Bob World''"
proof -
  have 1: "wellFormedTag helloTag" by code_simp
  have 2: "spanOf [Leaf helloPar] helloTag = Some (matchText helloTag)" by code_simp
  have 3: "getContainer [Leaf helloPar] (element (tagRange helloTag)) = Some helloPar" by code_simp
  have 4: "shiftedValue helloPar helloTag ''Bob'' = ''Bob''" by code_simp
  show ?thesis
    using editText_replaces[OF 1 2 3, of "''Bob''"] 1 2 3
    unfolding 4 by (simp add: helloTag_def helloPar_def)
qed

text \<open>
  Claim C1 as it is stated fails: a list item whose whole text is \<open><<Field>>\<close>, with
  the value of two lines \<open>A\<close> and \<open>B\<close>, is left with the text \<open>A\<close>, which is not
  the text before the match, the prefix, the value, the suffix and the text after.
\<close>

theorem editText_value_counterexample:
  "findAllTags 0 [Leaf fieldItem] = Inr [fieldTag] \<and>
   resolve [''Field'' \<mapsto> twoLines] fieldTag = Some twoLines \<and>
   twoLines \<noteq> [] \<and>
   editText fieldItem fieldTag twoLines = Inr ''A'' \<and>
   ''A'' \<noteq> take (startOffset (tagRange fieldTag)) (getText fieldItem) @
            (text1 fieldTag @ twoLines @ text2 fieldTag) @
            drop (Suc (endOffsetInclusive (tagRange fieldTag))) (getText fieldItem)"
  by code_simp

theorem resolve_cases_witness:
  "[''Name'' \<mapsto> ''Bob''] (tagName helloTag) = Some ''Bob'' \<and>
   resolve [''Name'' \<mapsto> ''Bob''] helloTag = Some ''Bob'' \<and>
   [''Name'' \<mapsto> ''Bob''] (tagName optTag) = None \<and> opt optTag \<and>
   resolve [''Name'' \<mapsto> ''Bob''] optTag = Some [] \<and>
   [''Name'' \<mapsto> ''Bob''] (tagName unknownTag) = None \<and> \<not> opt unknownTag \<and>
   resolve [''Name'' \<mapsto> ''Bob''] unknownTag = None \<and>
   processTag [''Name'' \<mapsto> ''Bob''] [[Leaf \<lparr>cid = 1, kind = PARAGRAPH, getText = ''<<Unknown>>''\<rparr>]] unknownTag
     = Inr [[Leaf \<lparr>cid = 1, kind = PARAGRAPH, getText = ''<<Unknown>>''\<rparr>]] \<and>
   processTags [''Name'' \<mapsto> ''Bob''] [unknownTag] [[Leaf \<lparr>cid = 1, kind = PARAGRAPH, getText = ''<<Unknown>>''\<rparr>]]
     = Inr [[Leaf \<lparr>cid = 1, kind = PARAGRAPH, getText = ''<<Unknown>>''\<rparr>]]"
  using resolve_cases[of "[''Name'' \<mapsto> ''Bob'']" helloTag "''Bob''" "[]" "[]"]
    resolve_cases[of "[''Name'' \<mapsto> ''Bob'']" optTag "''Bob''" "[]" "[]"]
    resolve_cases[of "[''Name'' \<mapsto> ''Bob'']" unknownTag "''Bob''"
       "[[Leaf \<lparr>cid = 1, kind = PARAGRAPH, getText = ''<<Unknown>>''\<rparr>]]" "[unknownTag]"]
  by (simp add: helloTag_def optTag_def unknownTag_def andThen_def)

definition emptyPar :: "nat \<Rightarrow> container" where
  "emptyPar i = \<lparr>cid = i, kind = PARAGRAPH, getText = []\<rparr>"

definition textPar :: "nat \<Rightarrow> container" where
  "textPar i = \<lparr>cid = i, kind = PARAGRAPH, getText = ''Du texte.''\<rparr>"

lemma cleanup_cases_example:
  "distinct (map cid (containers ([] @ Leaf (emptyPar 1) # [Leaf (textPar 2)]))) \<and>
   cleanup (cid (emptyPar 1)) ([] @ Leaf (emptyPar 1) # [Leaf (textPar 2)]) = Inr [Leaf (textPar 2)] \<and>
   distinct (map cid (containers ([] @ Table ([] @ ([[emptyPar 1]] @ ([] @ emptyPar 2 # []) # [[emptyPar 3]]) # []) # []))) \<and>
   cleanup (cid (emptyPar 2)) ([] @ Table ([] @ ([[emptyPar 1]] @ ([] @ emptyPar 2 # []) # [[emptyPar 3]]) # []) # [])
     = Inr [Table []] \<and>
   distinct (map cid (containers ([] @ Table ([] @ ([[textPar 1]] @ ([] @ emptyPar 2 # []) # [[emptyPar 3]]) # []) # []))) \<and>
   cleanup (cid (emptyPar 2)) ([] @ Table ([] @ ([[textPar 1]] @ ([] @ emptyPar 2 # []) # [[emptyPar 3]]) # []) # [])
     = Inr [Table [[[textPar 1], [], [emptyPar 3]]]]"
proof -
  have 1: "distinct (map cid (containers ([] @ Leaf (emptyPar 1) # [Leaf (textPar 2)])))"
    by (simp add: emptyPar_def textPar_def)
  have 2: "distinct (map cid (containers ([] @ Table ([] @ ([[emptyPar 1]] @ ([] @ emptyPar 2 # []) # [[emptyPar 3]]) # []) # [])))"
    by (simp add: emptyPar_def textPar_def)
  have 3: "distinct (map cid (containers ([] @ Table ([] @ ([[textPar 1]] @ ([] @ emptyPar 2 # []) # [[emptyPar 3]]) # []) # [])))"
    by (simp add: emptyPar_def textPar_def)
  show ?thesis
    using 1 2 3
      cleanup_cases[of "[]" "emptyPar 1" "[Leaf (textPar 2)]" "[]" "[]" "[]" "[]" "[]" "[]"]
      cleanup_cases[of "[]" "emptyPar 2" "[]" "[]" "[[emptyPar 1]]" "[]" "[]" "[[emptyPar 3]]" "[]"]
      cleanup_cases[of "[]" "emptyPar 2" "[]" "[]" "[[textPar 1]]" "[]" "[]" "[[emptyPar 3]]" "[]"]
    by (simp add: emptyPar_def textPar_def cellText_def)
qed

definition threeLines :: string where
  "threeLines = [CHR ''A'', CHR 0x0A, CHR ''B'', CHR 0x0A, CHR ''C'']"

lemma listItem_expansion_example:
  "processTag [''Field'' \<mapsto> threeLines] [[Leaf fieldItem, Leaf (textPar 2)]] fieldTag =
     Inr [[Leaf \<lparr>cid = 1, kind = LIST_ITEM NUMBER, getText = ''A''\<rparr>,
           Leaf \<lparr>cid = 3, kind = LIST_ITEM NUMBER, getText = ''B''\<rparr>,
           Leaf \<lparr>cid = 4, kind = LIST_ITEM NUMBER, getText = ''C''\<rparr>,
           Leaf (textPar 2)]]"
proof -
  let ?ps = "[[Leaf fieldItem, Leaf (textPar 2)]]"
  have 1: "docPart fieldTag < length ?ps" by code_simp
  have 2: "?ps ! docPart fieldTag = [] @ Leaf fieldItem # [Leaf (textPar 2)]" by code_simp
  have 3: "distinct (map cid (containers (?ps ! docPart fieldTag)))" by code_simp
  have 4: "kind fieldItem = LIST_ITEM NUMBER" by code_simp
  have 5: "element (tagRange fieldTag) = cid fieldItem" by code_simp
  have 6: "wellFormedTag fieldTag" by code_simp
  have 7: "spanOf (?ps ! docPart fieldTag) fieldTag = Some (matchText fieldTag)" by code_simp
  have 8: "matchText fieldTag = getText fieldItem" "text1 fieldTag = []" "text2 fieldTag = []"
    by code_simp+
  have 9: "resolve [''Field'' \<mapsto> threeLines] fieldTag = Some threeLines" by code_simp
  have 10: "splitOn isNewline threeLines = ''A'' # [''B'', ''C'']" by code_simp
  have 11: "''A'' \<noteq> []" by simp
  have 12: "freshId ?ps = 3" by code_simp
  have 13: "docPart fieldTag = 0" by code_simp
  show ?thesis
    using listItem_expansion[OF 1 2 3 4 5 6 7 8 9 10 11] unfolding 12 13
    by (simp add: fieldItem_def)
qed

definition optItem :: container where
  "optItem = \<lparr>cid = 2, kind = LIST_ITEM BULLET, getText = ''<<F?>>''\<rparr>"

definition optPar :: container where
  "optPar = \<lparr>cid = 2, kind = PARAGRAPH, getText = ''<<F?>>''\<rparr>"

definition tagF :: tag where
  "tagF = \<lparr>matchText = ''<<F?>>'',
      tagRange = \<lparr>element = 2, startOffset = 0, endOffsetInclusive = 5\<rparr>,
      text1 = [], tagName = ''F'', text2 = [], opt = True, docPart = 0\<rparr>"

text \<open>
  Claim C3 at a list item that is the child of a table cell, in a row whose other cells
  are empty, and whose whole text is an optional tag that has no value: the edit leaves
  the item empty, \<open>getChildIndex\<close> on the part does not find the item, and the call
  of \<open>merge\<close> ends with the exception before the item and its row are removed. A
  paragraph at the same place is removed, and its row with it; a list item that is a
  child of the part is removed.
\<close>

theorem nested_optional_item_fails:
  "findAllTags 0 [Table [[[emptyPar 1], [optItem], [emptyPar 3]]]] = Inr [tagF] \<and>
   resolve [''Name'' \<mapsto> ''Bob''] tagF = Some [] \<and>
   editText optItem tagF [] = Inr [] \<and>
   merge (body1 [Table [[[emptyPar 1], [optItem], [emptyPar 3]]]]) [''Name'' \<mapsto> ''Bob''] = Inl NotAChild \<and>
   merge (body1 [Table [[[emptyPar 1], [optPar], [emptyPar 3]]]]) [''Name'' \<mapsto> ''Bob''] = Inr [[Table []]] \<and>
   merge (body1 [Leaf optItem, Leaf (textPar 3)]) [''Name'' \<mapsto> ''Bob''] = Inr [[Leaf (textPar 3)]]"
  by code_simp

text \<open>
  Claim C4 at a list item that is the child of a table cell, with a value of the two
  lines \<open>A\<close> and \<open>B\<close>: \<open>getChildIndex\<close> on the part does not find the item, and
  the call of \<open>merge\<close> ends with the exception; no item is inserted. The same list
  item as a child of the part takes the first line and is followed by a new item with
  the second.
\<close>

theorem nested_listItem_expansion_fails:
  "findAllTags 0 [Table [[[fieldItem]]]] = Inr [fieldTag] \<and>
   isFullRep fieldItem fieldTag \<and>
   splitOn isNewline twoLines = [''A'', ''B''] \<and>
   merge (body1 [Table [[[fieldItem]]]]) [''Field'' \<mapsto> twoLines] = Inl NotAChild \<and>
   merge (body1 [Leaf fieldItem]) [''Field'' \<mapsto> twoLines] =
     Inr [[Leaf \<lparr>cid = 1, kind = LIST_ITEM NUMBER, getText = ''A''\<rparr>,
           Leaf \<lparr>cid = 2, kind = LIST_ITEM NUMBER, getText = ''B''\<rparr>]]"
  by code_simp

text \<open>
  Claim C10 at a list item that is the child of a table cell: \<open>getChildIndex\<close> on the
  part does not find the item, and the call of \<open>merge\<close> ends with the exception,
  for a value of one line as for any other.
\<close>

theorem nested_listItem_fails:
  "isItem \<lparr>cid = 1, kind = LIST_ITEM BULLET, getText = ''<<Field>>''\<rparr> \<and>
   splitOn isNewline ''x'' = [''x''] \<and>
   merge (body1 [Table [[[\<lparr>cid = 1, kind = LIST_ITEM BULLET, getText = ''<<Field>>''\<rparr>]]]])
     [''Field'' \<mapsto> ''x''] = Inl NotAChild"
  by code_simp

definition twoTagsPar :: container where
  "twoTagsPar = \<lparr>cid = 1, kind = PARAGRAPH, getText = ''<<A>> and <<B>>''\<rparr>"

definition tagA :: tag where
  "tagA = \<lparr>matchText = ''<<A>>'',
      tagRange = \<lparr>element = 1, startOffset = 0, endOffsetInclusive = 4\<rparr>,
      text1 = [], tagName = ''A'', text2 = [], opt = False, docPart = 0\<rparr>"

definition tagB :: tag where
  "tagB = \<lparr>matchText = ''<<B>>'',
      tagRange = \<lparr>element = 1, startOffset = 10, endOffsetInclusive = 14\<rparr>,
      text1 = [], tagName = ''B'', text2 = [], opt = False, docPart = 0\<rparr>"

theorem merge_ranges_intact_witness:
  "wellFormedDocument (body1 [Leaf twoTagsPar]) \<and>
   collectTags 0 (getDocumentParts (body1 [Leaf twoTagsPar])) = Inr [tagA, tagB] \<and>
   rev [tagA, tagB] = [tagB] @ tagA # [] \<and>
   processTags [''A'' \<mapsto> ''1'', ''B'' \<mapsto> ''22''] [tagB] (getDocumentParts (body1 [Leaf twoTagsPar])) =
     Inr [[Leaf \<lparr>cid = 1, kind = PARAGRAPH, getText = ''<<A>> and 22''\<rparr>]] \<and>
   list_all (rangeIntact [[Leaf \<lparr>cid = 1, kind = PARAGRAPH, getText = ''<<A>> and 22''\<rparr>]]) (tagA # [])"
proof -
  let ?d = "body1 [Leaf twoTagsPar]"
  let ?fm = "[''A'' \<mapsto> ''1'', ''B'' \<mapsto> ''22'']"
  let ?ps = "[[Leaf \<lparr>cid = 1, kind = PARAGRAPH, getText = ''<<A>> and 22''\<rparr>]]"
  have 1: "wellFormedDocument ?d" by code_simp
  have 2: "collectTags 0 (getDocumentParts ?d) = Inr [tagA, tagB]" by code_simp
  have 3: "rev [tagA, tagB] = [tagB] @ tagA # []" by simp
  have 4: "processTags ?fm [tagB] (getDocumentParts ?d) = Inr ?ps" by code_simp
  from merge_ranges_intact[OF 1, of ?fm] 2
  have "\<forall>ds t todo ps.
              rev [tagA, tagB] = ds @ t # todo \<and> processTags ?fm ds (getDocumentParts ?d) = Inr ps \<longrightarrow>
              list_all (rangeIntact ps) (t # todo)" by auto
  with 3 4 have "list_all (rangeIntact ?ps) (tagA # [])" by blast
  with 1 2 3 4 show ?thesis by blast
qed

definition emptyNamePar :: container where
  "emptyNamePar = \<lparr>cid = 1, kind = PARAGRAPH, getText = ''a <<>> b <<Name>>''\<rparr>"

definition nameTag :: tag where
  "nameTag = \<lparr>matchText = ''<<Name>>'',
      tagRange = \<lparr>element = 1, startOffset = 9, endOffsetInclusive = 16\<rparr>,
      text1 = [], tagName = ''Name'', text2 = [], opt = False, docPart = 0\<rparr>"

theorem emptyName_left_alone_witness:
  "wellFormedDocument (body1 [Leaf emptyNamePar]) \<and>
   0 < length (getDocumentParts (body1 [Leaf emptyNamePar])) \<and>
   getContainer (getDocumentParts (body1 [Leaf emptyNamePar]) ! 0) 1 = Some emptyNamePar \<and>
   getText emptyNamePar = ''a '' @ tagConstruct [] [] False [] @ '' b <<Name>>'' \<and>
   collectTags 0 (getDocumentParts (body1 [Leaf emptyNamePar])) = Inr [nameTag] \<and>
   docPart nameTag = 0 \<and> element (tagRange nameTag) = 1 \<and>
   length ''a '' + length (tagConstruct [] [] False []) \<le> startOffset (tagRange nameTag) \<and>
   merge (body1 [Leaf emptyNamePar]) [''Name'' \<mapsto> ''Bob''] =
     Inr [[Leaf \<lparr>cid = 1, kind = PARAGRAPH, getText = ''a <<>> b Bob''\<rparr>]] \<and>
   (\<exists>x' P Q. getContainer ([[Leaf \<lparr>cid = 1, kind = PARAGRAPH, getText = ''a <<>> b Bob''\<rparr>]] ! 0) 1 = Some x' \<and>
       getText x' = P @ tagConstruct [] [] False [] @ Q)"
proof -
  let ?d = "body1 [Leaf emptyNamePar]"
  have 1: "wellFormedDocument ?d" by code_simp
  have 2: "0 < length (getDocumentParts ?d)" by code_simp
  have 3: "getContainer (getDocumentParts ?d ! 0) 1 = Some emptyNamePar" by code_simp
  have 4: "getText emptyNamePar = ''a '' @ tagConstruct [] [] False [] @ '' b <<Name>>''" by code_simp
  have 5: "list_all notAngle []" by simp
  have 6: "merge ?d [''Name'' \<mapsto> ''Bob''] =
     Inr [[Leaf \<lparr>cid = 1, kind = PARAGRAPH, getText = ''a <<>> b Bob''\<rparr>]]" by code_simp
  have 7: "collectTags 0 (getDocumentParts ?d) = Inr [nameTag]" by code_simp
  have 8: "docPart nameTag = 0" "element (tagRange nameTag) = 1"
    "length ''a '' + length (tagConstruct [] [] False []) \<le> startOffset (tagRange nameTag)"
    by code_simp+
  from emptyName_left_alone[OF 1 2 3 4 5 5, of "[''Name'' \<mapsto> ''Bob'']"] 6
  have "\<exists>x' P Q. getContainer ([[Leaf \<lparr>cid = 1, kind = PARAGRAPH, getText = ''a <<>> b Bob''\<rparr>]] ! 0) 1 = Some x' \<and>
       getText x' = P @ tagConstruct [] [] False [] @ Q" by blast
  with 1 2 3 4 6 7 8 show ?thesis by blast
qed

definition nestedPar :: container where
  "nestedPar = \<lparr>cid = 1, kind = PARAGRAPH, getText = ''<<<A>><B>>''\<rparr>"

definition selfPar :: container where
  "selfPar = \<lparr>cid = 1, kind = PARAGRAPH, getText = ''<<A>>''\<rparr>"

definition mixedPar :: container where
  "mixedPar = \<lparr>cid = 1, kind = PARAGRAPH, getText = ''Hello <<Name>> and <<Unknown>>''\<rparr>"

text \<open>
  Claim C8 as it is stated fails. In \<open><<<A>><B>>\<close> the scanner finds \<open><<A>>\<close> only;
  with the value \<open>x\<close> the output is \<open><x<B>>\<close>, where a second run finds the tag
  \<open>B\<close>, whose name is in the field map. And a value that is itself a tag, \<open><<A>>\<close>
  for the name \<open>A\<close>, is found again in the output.
\<close>

theorem merge_settles_counterexample:
  "wellFormedDocument (body1 [Leaf nestedPar]) \<and>
   merge (body1 [Leaf nestedPar]) [''A'' \<mapsto> ''x'', ''B'' \<mapsto> ''y''] =
     Inr [[Leaf \<lparr>cid = 1, kind = PARAGRAPH, getText = ''<x<B>>''\<rparr>]] \<and>
   collectTags 0 [[Leaf \<lparr>cid = 1, kind = PARAGRAPH, getText = ''<x<B>>''\<rparr>]] =
     Inr [\<lparr>matchText = ''<x<B>>'',
           tagRange = \<lparr>element = 1, startOffset = 0, endOffsetInclusive = 5\<rparr>,
           text1 = ''x'', tagName = ''B'', text2 = [], opt = False, docPart = 0\<rparr>] \<and>
   [''A'' \<mapsto> ''x'', ''B'' \<mapsto> ''y''] ''B'' = Some ''y'' \<and>
   merge (body1 [Leaf selfPar]) [''A'' \<mapsto> ''<<A>>''] =
     Inr [[Leaf \<lparr>cid = 1, kind = PARAGRAPH, getText = ''<<A>>''\<rparr>]] \<and>
   collectTags 0 [[Leaf \<lparr>cid = 1, kind = PARAGRAPH, getText = ''<<A>>''\<rparr>]] =
     Inr [\<lparr>matchText = ''<<A>>'',
           tagRange = \<lparr>element = 1, startOffset = 0, endOffsetInclusive = 4\<rparr>,
           text1 = [], tagName = ''A'', text2 = [], opt = False, docPart = 0\<rparr>] \<and>
   [''A'' \<mapsto> ''<<A>>''] ''A'' = Some ''<<A>>''"
  by code_simp

theorem merge_settles_witness:
  "wellFormedDocument (body1 [Leaf mixedPar]) \<and>
   plainValues [''Name'' \<mapsto> ''Bob''] \<and>
   bracketsInTags (getDocumentParts (body1 [Leaf mixedPar])) \<and>
   merge (body1 [Leaf mixedPar]) [''Name'' \<mapsto> ''Bob''] =
     Inr [[Leaf \<lparr>cid = 1, kind = PARAGRAPH, getText = ''Hello Bob and <<Unknown>>''\<rparr>]] \<and>
   (\<exists>tags'. collectTags 0 [[Leaf \<lparr>cid = 1, kind = PARAGRAPH, getText = ''Hello Bob and <<Unknown>>''\<rparr>]] = Inr tags' \<and>
      list_all (\<lambda>t. [''Name'' \<mapsto> ''Bob''] (tagName t) = None \<and> \<not> opt t) tags')"
proof -
  let ?d = "body1 [Leaf mixedPar]"
  let ?fm = "[''Name'' \<mapsto> ''Bob'']"
  have 1: "wellFormedDocument ?d" by code_simp
  have 2: "plainValues ?fm" by (simp add: plainValues_def notAngle_def)
  have 3: "bracketsInTags (getDocumentParts ?d)" by code_simp
  have 4: "merge ?d ?fm = Inr [[Leaf \<lparr>cid = 1, kind = PARAGRAPH, getText = ''Hello Bob and <<Unknown>>''\<rparr>]]"
    by code_simp
  from merge_settles[OF 1 2 3 4] have "\<exists>tags'. collectTags 0 [[Leaf \<lparr>cid = 1, kind = PARAGRAPH, getText = ''Hello Bob and <<Unknown>>''\<rparr>]] = Inr tags' \<and>
      list_all (\<lambda>t. ?fm (tagName t) = None \<and> \<not> opt t) tags'"
    by (simp add: list_all_iff)
  with 1 2 3 4 show ?thesis by blast
qed

end
